theory Spec2Isabelle
  imports Main "HOL-Library.AList"
begin

section \<open>The checkout store: carts, registers and the store (checkoutbot/store.py)\<close>

subsection \<open>Outcomes of a call\<close>

text \<open>
  The four ways a call of store.py can fail. The first three are the messages of the
  three \<^verbatim>\<open>raise Exception(...)\<close> statements; \<open>ReleaseUnlocked\<close> is the
  \<^verbatim>\<open>ValueError\<close> that \<^verbatim>\<open>multiprocessing.Lock.release\<close> raises on a lock
  that is not held. \<open>NoSuchRegister\<close> belongs to the model only: \<^verbatim>\<open>register_map\<close>
  holds references to Register objects, which the model writes as positions in the pool,
  and a position outside the pool has no counterpart in the program.
\<close>

datatype error =
    CartDoesNotExist       \<comment> \<open>"A cart to checkout does not exist for the given customer."\<close>
  | CheckoutWithoutCart    \<comment> \<open>"Attempted to checkout customer without a cart"\<close>
  | InvalidRegisterState   \<comment> \<open>"Invalid register state"\<close>
  | ReleaseUnlocked
  | NoSuchRegister

text \<open>
  A call returns a value and leaves a state, or raises and leaves the state it had
  reached, or never returns: \<^verbatim>\<open>Lock.acquire()\<close> on a lock that is held blocks, and
  in a single thread of control nothing will release it.
\<close>

datatype ('a, 's) outcome = Returned 'a 's | Raised error 's | Blocked

fun andThen :: "('a, 's) outcome \<Rightarrow> ('a \<Rightarrow> 's \<Rightarrow> ('b, 's) outcome) \<Rightarrow> ('b, 's) outcome" where
  "andThen (Returned v s) f = f v s"
| "andThen (Raised e s) f = Raised e s"
| "andThen Blocked f = Blocked"

subsection \<open>Cart\<close>

record ('c, 'i) cart =
  customer_id :: 'c
  items :: "'i list"

definition Cart_init :: "'c \<Rightarrow> ('c, 'i) cart" where
  "Cart_init cid = \<lparr>customer_id = cid, items = []\<rparr>"

definition size_cart :: "('c, 'i) cart \<Rightarrow> nat" where
  "size_cart c = length (items c)"

definition addItem :: "'i \<Rightarrow> ('c, 'i) cart \<Rightarrow> ('c, 'i) cart" where
  "addItem item_id c = c\<lparr>items := items c @ [item_id]\<rparr>"

subsection \<open>Register\<close>

text \<open>
  \<open>customer_cart_map\<close> is a Python dict, which keeps its keys in insertion order;
  \<^verbatim>\<open>getRegisterState\<close> walks it in that order, so it is an association list.
  \<^verbatim>\<open>d[k] = v\<close> is \<^const>\<open>AList.update\<close> (in place for a key that is present, at the
  end for a new one), \<^verbatim>\<open>del d[k]\<close> is \<^const>\<open>AList.delete\<close>, \<^verbatim>\<open>k in d\<close> is
  \<open>map_of d k \<noteq> None\<close>. \<open>lock\<close> is \<open>True\<close> while the register's mutex is held.
\<close>

record ('c, 'i) register =
  customer_cart_map :: "('c \<times> ('c, 'i) cart) list"
  lock :: bool
  register_id :: nat

definition Register_init :: "nat \<Rightarrow> ('c, 'i) register" where
  "Register_init rid = \<lparr>customer_cart_map = [], lock = False, register_id = rid\<rparr>"

definition lockRegister :: "('c, 'i) register \<Rightarrow> (unit, ('c, 'i) register) outcome" where
  "lockRegister r = (if lock r then Blocked else Returned () (r\<lparr>lock := True\<rparr>))"

definition unlockRegister :: "('c, 'i) register \<Rightarrow> (unit, ('c, 'i) register) outcome" where
  "unlockRegister r =
     (if lock r then Returned () (r\<lparr>lock := False\<rparr>) else Raised ReleaseUnlocked r)"

definition addItemToCart ::
  "'c \<Rightarrow> 'i \<Rightarrow> ('c, 'i) register \<Rightarrow> (unit, ('c, 'i) register) outcome" where
  "addItemToCart cid item_id r =
     andThen (lockRegister r) (\<lambda>_ r1.
       unlockRegister
         (case map_of (customer_cart_map r1) cid of
            Some c \<Rightarrow>
              r1\<lparr>customer_cart_map := AList.update cid (addItem item_id c) (customer_cart_map r1)\<rparr>
          | None \<Rightarrow>
              r1\<lparr>customer_cart_map :=
                    AList.update cid (addItem item_id (Cart_init cid)) (customer_cart_map r1)\<rparr>))"

definition checkoutCart :: "'c \<Rightarrow> ('c, 'i) register \<Rightarrow> (unit, ('c, 'i) register) outcome" where
  "checkoutCart cid r =
     andThen (lockRegister r) (\<lambda>_ r1.
       if map_of (customer_cart_map r1) cid \<noteq> None
       then unlockRegister (r1\<lparr>customer_cart_map := AList.delete cid (customer_cart_map r1)\<rparr>)
       else Raised CartDoesNotExist r1)"

definition getTotalItems :: "('c, 'i) register \<Rightarrow> nat" where
  "getTotalItems r =
     fold (\<lambda>c total_items. total_items + size_cart c) (map snd (customer_cart_map r)) 0"

definition getRegisterState :: "('c, 'i) register \<Rightarrow> 'c list" where
  "getRegisterState r =
     fold (\<lambda>c register_state. register_state @ replicate (size_cart c) (customer_id c))
       (map snd (customer_cart_map r)) []"

subsection \<open>Store\<close>

text \<open>
  \<open>register_map\<close> maps a customer to a Register object of the pool. The objects of
  the pool are distinct and live as long as the store, so the reference is the position
  in \<open>registers\<close>.
\<close>

record ('c, 'i) store =
  registers :: "('c, 'i) register list"
  register_map :: "'c \<rightharpoonup> nat"

definition Store_init :: "int \<Rightarrow> ('c, 'i) store" where
  "Store_init num_registers =
     \<lparr>registers = map Register_init [0 ..< nat num_registers], register_map = Map.empty\<rparr>"

text \<open>A method call on the Register object at position \<open>k\<close> of the pool.\<close>

definition inStore ::
  "('c, 'i) store \<Rightarrow> ('a, ('c, 'i) register list) outcome \<Rightarrow> ('a, ('c, 'i) store) outcome" where
  "inStore s out =
     (case out of
        Returned v rs \<Rightarrow> Returned v (s\<lparr>registers := rs\<rparr>)
      | Raised e rs \<Rightarrow> Raised e (s\<lparr>registers := rs\<rparr>)
      | Blocked \<Rightarrow> Blocked)"

definition atRegister ::
  "nat \<Rightarrow> (('c, 'i) register \<Rightarrow> ('a, ('c, 'i) register) outcome) \<Rightarrow> ('c, 'i) store
     \<Rightarrow> ('a, ('c, 'i) store) outcome" where
  "atRegister k f s =
     (if k < length (registers s)
      then inStore s
             (case f (registers s ! k) of
                Returned v r \<Rightarrow> Returned v ((registers s)[k := r])
              | Raised e r \<Rightarrow> Raised e ((registers s)[k := r])
              | Blocked \<Rightarrow> Blocked)
      else Raised NoSuchRegister s)"

text \<open>\<^verbatim>\<open>for register in self.registers: register.f()\<close>, in pool order.\<close>

fun forEach ::
  "(('c, 'i) register \<Rightarrow> (unit, ('c, 'i) register) outcome) \<Rightarrow> ('c, 'i) register list
     \<Rightarrow> (unit, ('c, 'i) register list) outcome" where
  "forEach f [] = Returned () []"
| "forEach f (r # rs) =
     (case f r of
        Returned _ r' \<Rightarrow>
          (case forEach f rs of
             Returned _ rs' \<Rightarrow> Returned () (r' # rs')
           | Raised e rs' \<Rightarrow> Raised e (r' # rs')
           | Blocked \<Rightarrow> Blocked)
      | Raised e r' \<Rightarrow> Raised e (r' # rs)
      | Blocked \<Rightarrow> Blocked)"

definition lockRegisters :: "('c, 'i) store \<Rightarrow> (unit, ('c, 'i) store) outcome" where
  "lockRegisters s = inStore s (forEach lockRegister (registers s))"

definition unlockRegisters :: "('c, 'i) store \<Rightarrow> (unit, ('c, 'i) store) outcome" where
  "unlockRegisters s = inStore s (forEach unlockRegister (registers s))"

text \<open>\<^verbatim>\<open>sys.maxsize\<close> of a 64-bit CPython.\<close>

definition sys_maxsize :: nat where
  "sys_maxsize = 2 ^ 63 - 1"

text \<open>
  The loop of \<^verbatim>\<open>getLeastUtilizedRegister\<close> over the rest of the pool, at position
  \<open>k\<close>: \<open>Found\<close> is the early \<^verbatim>\<open>return register\<close>, \<open>Lowest\<close> the value of
  \<^verbatim>\<open>lowest_utilized_register\<close> when the loop ends (\<open>None\<close> as in the source).
\<close>

datatype scan = Found nat | Lowest "nat option"

fun scanRegisters :: "('c, 'i) register list \<Rightarrow> nat \<Rightarrow> nat \<Rightarrow> nat option \<Rightarrow> scan" where
  "scanRegisters [] k lowest_items lowest_utilized_register = Lowest lowest_utilized_register"
| "scanRegisters (r # rs) k lowest_items lowest_utilized_register =
     (let total_items = getTotalItems r in
      if total_items = 0 then Found k
      else if lowest_items > total_items then scanRegisters rs (Suc k) total_items (Some k)
      else scanRegisters rs (Suc k) lowest_items lowest_utilized_register)"

definition getLeastUtilizedRegister :: "('c, 'i) store \<Rightarrow> (nat, ('c, 'i) store) outcome" where
  "getLeastUtilizedRegister s =
     andThen (lockRegisters s) (\<lambda>_ s1.
       case scanRegisters (registers s1) 0 sys_maxsize None of
         Found k \<Rightarrow> andThen (unlockRegisters s1) (\<lambda>_ s2. Returned k s2)
       | Lowest None \<Rightarrow> Raised InvalidRegisterState s1
       | Lowest (Some k) \<Rightarrow> andThen (unlockRegisters s1) (\<lambda>_ s2. Returned k s2))"

definition assignItem :: "'c \<Rightarrow> 'i \<Rightarrow> ('c, 'i) store \<Rightarrow> (unit, ('c, 'i) store) outcome" where
  "assignItem cid item_id s =
     (case register_map s cid of
        Some k \<Rightarrow> atRegister k (addItemToCart cid item_id) s
      | None \<Rightarrow>
          andThen (getLeastUtilizedRegister s) (\<lambda>k s1.
            andThen (atRegister k (addItemToCart cid item_id) s1) (\<lambda>_ s2.
              Returned () (s2\<lparr>register_map := (register_map s2)(cid \<mapsto> k)\<rparr>))))"

definition checkoutCustomer :: "'c \<Rightarrow> ('c, 'i) store \<Rightarrow> (unit, ('c, 'i) store) outcome" where
  "checkoutCustomer cid s =
     (case register_map s cid of
        Some k \<Rightarrow>
          andThen (atRegister k (checkoutCart cid) s) (\<lambda>_ s1.
            Returned () (s1\<lparr>register_map := (register_map s1)(cid := None)\<rparr>))
      | None \<Rightarrow> Raised CheckoutWithoutCart s)"

definition getAllRegisterState ::
  "('c, 'i) store \<Rightarrow> (nat \<rightharpoonup> 'c list, ('c, 'i) store) outcome" where
  "getAllRegisterState s =
     andThen (lockRegisters s) (\<lambda>_ s1.
       let state = fold (\<lambda>r st. st(register_id r \<mapsto> getRegisterState r)) (registers s1) Map.empty
       in andThen (unlockRegisters s1) (\<lambda>_ s2. Returned state s2))"

subsection \<open>Sequences of calls on a store\<close>

text \<open>
  The public methods of Store, called one after the other on the same store, as the
  routes of api.py do on the module's global \<^verbatim>\<open>store\<close>. A call that raises leaves
  the store in the state it had reached and the next call goes on from there; a call
  that blocks ends the run.
\<close>

datatype ('c, 'i) call =
    AssignItem 'c 'i
  | CheckoutCustomer 'c
  | GetLeastUtilizedRegister
  | GetAllRegisterState

fun perform :: "('c, 'i) call \<Rightarrow> ('c, 'i) store \<Rightarrow> (unit, ('c, 'i) store) outcome" where
  "perform (AssignItem cid item_id) s = assignItem cid item_id s"
| "perform (CheckoutCustomer cid) s = checkoutCustomer cid s"
| "perform GetLeastUtilizedRegister s =
     andThen (getLeastUtilizedRegister s) (\<lambda>_ s'. Returned () s')"
| "perform GetAllRegisterState s =
     andThen (getAllRegisterState s) (\<lambda>_ s'. Returned () s')"

fun run :: "('c, 'i) call list \<Rightarrow> ('c, 'i) store \<Rightarrow> ('c, 'i) store option" where
  "run [] s = Some s"
| "run (c # cs) s =
     (case perform c s of
        Returned _ s' \<Rightarrow> run cs s'
      | Raised _ s' \<Rightarrow> run cs s'
      | Blocked \<Rightarrow> None)"

subsection \<open>Notions used in the statements\<close>

text \<open>The keys of a register's \<open>customer_cart_map\<close>, and the items of one customer's cart.\<close>

definition customers :: "('c, 'i) register \<Rightarrow> 'c set" where
  "customers r = fst ` set (customer_cart_map r)"

definition cartItems :: "'c \<Rightarrow> ('c, 'i) register \<Rightarrow> 'i list" where
  "cartItems cid r = (case map_of (customer_cart_map r) cid of Some c \<Rightarrow> items c | None \<Rightarrow> [])"

text \<open>The routing invariant: \<open>register_map[c]\<close> is \<open>r\<close> iff \<open>c\<close> is a key of \<open>r\<close>'s cart map.\<close>

definition routed :: "('c, 'i) store \<Rightarrow> bool" where
  "routed s \<longleftrightarrow>
     (\<forall>cid k. register_map s cid = Some k \<longleftrightarrow>
        k < length (registers s) \<and> cid \<in> customers (registers s ! k))"

text \<open>The sum over all registers of \<^verbatim>\<open>getTotalItems()\<close>.\<close>

definition totalItems :: "('c, 'i) store \<Rightarrow> nat" where
  "totalItems s = sum_list (map getTotalItems (registers s))"

text \<open>The items in a customer's cart: the cart at the register \<open>register_map\<close> gives.\<close>

definition pending :: "'c \<Rightarrow> ('c, 'i) store \<Rightarrow> 'i list" where
  "pending cid s =
     (case register_map s cid of
        Some k \<Rightarrow> if k < length (registers s) then cartItems cid (registers s ! k) else []
      | None \<Rightarrow> [])"

text \<open>
  The number of \<^verbatim>\<open>assignItem\<close> calls of a sequence that returned, and the number of
  items in the carts of the customers whose \<^verbatim>\<open>checkoutCustomer\<close> returned, each counted
  when the call was made.
\<close>

fun assigned :: "('c, 'i) call list \<Rightarrow> ('c, 'i) store \<Rightarrow> nat" where
  "assigned [] s = 0"
| "assigned (c # cs) s =
     (case perform c s of
        Returned _ s' \<Rightarrow> (case c of AssignItem _ _ \<Rightarrow> 1 | _ \<Rightarrow> 0) + assigned cs s'
      | Raised _ s' \<Rightarrow> assigned cs s'
      | Blocked \<Rightarrow> 0)"

fun removed :: "('c, 'i) call list \<Rightarrow> ('c, 'i) store \<Rightarrow> nat" where
  "removed [] s = 0"
| "removed (c # cs) s =
     (case perform c s of
        Returned _ s' \<Rightarrow>
          (case c of CheckoutCustomer cid \<Rightarrow> length (pending cid s) | _ \<Rightarrow> 0) + removed cs s'
      | Raised _ s' \<Rightarrow> removed cs s'
      | Blocked \<Rightarrow> 0)"

text \<open>A dict has each key once: the keys of every cart map are distinct.\<close>

definition distinctKeys :: "('c, 'i) store \<Rightarrow> bool" where
  "distinctKeys s \<longleftrightarrow> (\<forall>r\<in>set (registers s). distinct (map fst (customer_cart_map r)))"

text \<open>The items that the \<^verbatim>\<open>assignItem\<close> calls of a sequence pass for one customer, in order.\<close>

fun itemsAssigned :: "'c \<Rightarrow> ('c, 'i) call list \<Rightarrow> 'i list" where
  "itemsAssigned cid [] = []"
| "itemsAssigned cid (AssignItem c item_id # cs) =
     (if c = cid then item_id # itemsAssigned cid cs else itemsAssigned cid cs)"
| "itemsAssigned cid (_ # cs) = itemsAssigned cid cs"

text \<open>Every cart is stored under the id of its own customer.\<close>

definition ownedCarts :: "('c, 'i) store \<Rightarrow> bool" where
  "ownedCarts s \<longleftrightarrow>
     (\<forall>r\<in>set (registers s). \<forall>p\<in>set (customer_cart_map r). customer_id (snd p) = fst p)"

text \<open>No register lock is held: no call is under way.\<close>

definition quiescent :: "('c, 'i) store \<Rightarrow> bool" where
  "quiescent s \<longleftrightarrow> (\<forall>r\<in>set (registers s). \<not> lock r)"


subsection \<open>Example stores\<close>

text \<open>Three customers on three registers, holding two, one and one item.\<close>

definition busy_store :: "(nat, nat) store" where
  "busy_store =
     \<lparr>registers =
        [\<lparr>customer_cart_map = [(1, \<lparr>customer_id = 1, items = [10, 11]\<rparr>)],
          lock = False, register_id = 0\<rparr>,
         \<lparr>customer_cart_map = [(2, \<lparr>customer_id = 2, items = [12]\<rparr>)],
          lock = False, register_id = 1\<rparr>,
         \<lparr>customer_cart_map = [(3, \<lparr>customer_id = 3, items = [13]\<rparr>)],
          lock = False, register_id = 2\<rparr>],
      register_map = [1 \<mapsto> 0, 2 \<mapsto> 1, 3 \<mapsto> 2]\<rparr>"

text \<open>One customer with two items on the first of three registers; the others are empty.\<close>

definition idle_store :: "(nat, nat) store" where
  "idle_store =
     \<lparr>registers =
        [\<lparr>customer_cart_map = [(1, \<lparr>customer_id = 1, items = [10, 11]\<rparr>)],
          lock = False, register_id = 0\<rparr>,
         \<lparr>customer_cart_map = [], lock = False, register_id = 1\<rparr>,
         \<lparr>customer_cart_map = [], lock = False, register_id = 2\<rparr>],
      register_map = [1 \<mapsto> 0]\<rparr>"

text \<open>
  The store of three customers with a routing entry for customer 4 that points at
  register 0, which holds no cart of customer 4: the state in which the register-level
  removal fails.
\<close>

definition stale_store :: "(nat, nat) store" where
  "stale_store = busy_store\<lparr>register_map := (register_map busy_store)(4 \<mapsto> 0)\<rparr>"

text \<open>Two customers on a store of two registers; the first comes back with a second item.\<close>

definition scenario :: "(nat, nat) call list" where
  "scenario = [AssignItem 1 10, AssignItem 2 20, AssignItem 1 11]"


section \<open>Locks and the scan loop\<close>

lemma relock_False: "\<not> lock r \<Longrightarrow> r\<lparr>lock := False\<rparr> = r"
  by (cases r) simp

lemma addItemToCart_eq:
  "addItemToCart cid item_id r =
     (if lock r then Blocked
      else Returned ()
             (r\<lparr>customer_cart_map :=
                  AList.update cid
                    (addItem item_id (case map_of (customer_cart_map r) cid of
                                        Some c \<Rightarrow> c | None \<Rightarrow> Cart_init cid))
                    (customer_cart_map r)\<rparr>))"
  by (cases r) (simp add: addItemToCart_def lockRegister_def unlockRegister_def split: option.split)

lemma checkoutCart_eq:
  "checkoutCart cid r =
     (if lock r then Blocked
      else if map_of (customer_cart_map r) cid \<noteq> None
      then Returned () (r\<lparr>customer_cart_map := AList.delete cid (customer_cart_map r)\<rparr>)
      else Raised CartDoesNotExist (r\<lparr>lock := True\<rparr>))"
  by (cases r) (simp add: checkoutCart_def lockRegister_def unlockRegister_def)

lemma forEach_lockRegister:
  "forEach lockRegister rs =
     (if \<exists>r\<in>set rs. lock r then Blocked else Returned () (map (\<lambda>r. r\<lparr>lock := True\<rparr>) rs))"
  by (induction rs) (auto simp: lockRegister_def)

lemma forEach_unlockRegister_locked:
  "forEach unlockRegister (map (\<lambda>r. r\<lparr>lock := True\<rparr>) rs) =
     Returned () (map (\<lambda>r. r\<lparr>lock := False\<rparr>) rs)"
  by (induction rs) (auto simp: unlockRegister_def)

lemma map_relock_False: "\<forall>r\<in>set rs. \<not> lock r \<Longrightarrow> map (\<lambda>r. r\<lparr>lock := False\<rparr>) rs = rs"
  by (induction rs) (auto simp: relock_False)

lemma getTotalItems_lock [simp]: "getTotalItems (r\<lparr>lock := b\<rparr>) = getTotalItems r"
  by (simp add: getTotalItems_def)

lemma getRegisterState_lock [simp]: "getRegisterState (r\<lparr>lock := b\<rparr>) = getRegisterState r"
  by (simp add: getRegisterState_def)

lemma scanRegisters_cong:
  "map getTotalItems rs = map getTotalItems rs' \<Longrightarrow>
   scanRegisters rs k l c = scanRegisters rs' k l c"
proof (induction rs arbitrary: rs' k l c)
  case Nil
  then show ?case by simp
next
  case (Cons r rs)
  then obtain r' rs'' where rs': "rs' = r' # rs''" by (cases rs') auto
  with Cons.prems have "getTotalItems r = getTotalItems r'"
    and "map getTotalItems rs = map getTotalItems rs''" by simp_all
  with Cons.IH rs' show ?case by (simp add: Let_def)
qed

lemma scanRegisters_locked:
  "scanRegisters (map (\<lambda>r. r\<lparr>lock := True\<rparr>) rs) k l c = scanRegisters rs k l c"
  by (rule scanRegisters_cong) simp

lemma getLeastUtilizedRegister_eq:
  "getLeastUtilizedRegister s =
     (if \<exists>r\<in>set (registers s). lock r then Blocked
      else case scanRegisters (registers s) 0 sys_maxsize None of
             Found k \<Rightarrow> Returned k s
           | Lowest None \<Rightarrow>
               Raised InvalidRegisterState
                 (s\<lparr>registers := map (\<lambda>r. r\<lparr>lock := True\<rparr>) (registers s)\<rparr>)
           | Lowest (Some k) \<Rightarrow> Returned k s)"
  by (simp add: getLeastUtilizedRegister_def lockRegisters_def unlockRegisters_def inStore_def
      forEach_lockRegister forEach_unlockRegister_locked scanRegisters_locked map_relock_False
      split: scan.split option.split)

lemma scanRegisters_Found:
  "scanRegisters rs k l c = Found j \<Longrightarrow>
   \<exists>m<length rs. j = k + m \<and> getTotalItems (rs ! m) = 0 \<and> (\<forall>i<m. getTotalItems (rs ! i) \<noteq> 0)"
proof (induction rs arbitrary: k l c)
  case Nil
  then show ?case by simp
next
  case (Cons r rs)
  show ?case
  proof (cases "getTotalItems r = 0")
    case True
    with Cons.prems have "j = k" by simp
    with True show ?thesis by (intro exI[of _ 0]) simp
  next
    case False
    with Cons.prems obtain l' c' where "scanRegisters rs (Suc k) l' c' = Found j"
      by (auto simp: Let_def split: if_splits)
    from Cons.IH[OF this] obtain m where m: "m < length rs" "j = Suc k + m"
      "getTotalItems (rs ! m) = 0" "\<forall>i<m. getTotalItems (rs ! i) \<noteq> 0" by blast
    with False show ?thesis
      by (intro exI[of _ "Suc m"]) (simp add: All_less_Suc2)
  qed
qed

lemma scanRegisters_zero:
  "\<exists>r\<in>set rs. getTotalItems r = 0 \<Longrightarrow> \<exists>j. scanRegisters rs k l c = Found j"
proof (induction rs arbitrary: k l c)
  case Nil
  then show ?case by simp
next
  case (Cons r rs)
  show ?case
  proof (cases "getTotalItems r = 0")
    case True
    then show ?thesis by simp
  next
    case False
    with Cons.prems have "\<exists>r\<in>set rs. getTotalItems r = 0" by auto
    from Cons.IH[OF this] False show ?thesis by (simp add: Let_def)
  qed
qed

lemma scanRegisters_Lowest:
  "scanRegisters rs k l c = Lowest c' \<Longrightarrow>
   (\<forall>r\<in>set rs. getTotalItems r \<noteq> 0) \<and>
   ((c' = c \<and> (\<forall>r\<in>set rs. l \<le> getTotalItems r)) \<or>
    (\<exists>m<length rs. c' = Some (k + m) \<and> getTotalItems (rs ! m) < l \<and>
       (\<forall>i<m. getTotalItems (rs ! m) < getTotalItems (rs ! i)) \<and>
       (\<forall>i<length rs. getTotalItems (rs ! m) \<le> getTotalItems (rs ! i))))"
proof (induction rs arbitrary: k l c)
  case Nil
  then show ?case by simp
next
  case (Cons r rs)
  let ?t = "getTotalItems r"
  from Cons.prems have nz: "?t \<noteq> 0" by (auto simp: Let_def split: if_splits)
  show ?case
  proof (cases "l > ?t")
    case True
    with nz Cons.prems have rec: "scanRegisters rs (Suc k) ?t (Some k) = Lowest c'"
      by (simp add: Let_def)
    from Cons.IH[OF rec] have nzs: "\<forall>r\<in>set rs. getTotalItems r \<noteq> 0"
      and alt: "(c' = Some k \<and> (\<forall>r\<in>set rs. ?t \<le> getTotalItems r)) \<or>
        (\<exists>m<length rs. c' = Some (Suc k + m) \<and> getTotalItems (rs ! m) < ?t \<and>
           (\<forall>i<m. getTotalItems (rs ! m) < getTotalItems (rs ! i)) \<and>
           (\<forall>i<length rs. getTotalItems (rs ! m) \<le> getTotalItems (rs ! i)))"
      by blast+
    from alt show ?thesis
    proof
      assume a: "c' = Some k \<and> (\<forall>r\<in>set rs. ?t \<le> getTotalItems r)"
      then have "\<forall>i<length rs. ?t \<le> getTotalItems (rs ! i)" by simp
      with a True nz nzs show ?thesis
        by (intro conjI disjI2 exI[of _ 0]) (simp_all add: All_less_Suc2)
    next
      assume "\<exists>m<length rs. c' = Some (Suc k + m) \<and> getTotalItems (rs ! m) < ?t \<and>
           (\<forall>i<m. getTotalItems (rs ! m) < getTotalItems (rs ! i)) \<and>
           (\<forall>i<length rs. getTotalItems (rs ! m) \<le> getTotalItems (rs ! i))"
      then obtain m where m: "m < length rs" "c' = Some (Suc k + m)"
        "getTotalItems (rs ! m) < ?t"
        "\<forall>i<m. getTotalItems (rs ! m) < getTotalItems (rs ! i)"
        "\<forall>i<length rs. getTotalItems (rs ! m) \<le> getTotalItems (rs ! i)" by blast
      with True nz nzs show ?thesis
        by (intro conjI disjI2 exI[of _ "Suc m"]) (simp_all add: All_less_Suc2)
    qed
  next
    case False
    with nz Cons.prems have rec: "scanRegisters rs (Suc k) l c = Lowest c'"
      by (simp add: Let_def)
    from Cons.IH[OF rec] have nzs: "\<forall>r\<in>set rs. getTotalItems r \<noteq> 0"
      and alt: "(c' = c \<and> (\<forall>r\<in>set rs. l \<le> getTotalItems r)) \<or>
        (\<exists>m<length rs. c' = Some (Suc k + m) \<and> getTotalItems (rs ! m) < l \<and>
           (\<forall>i<m. getTotalItems (rs ! m) < getTotalItems (rs ! i)) \<and>
           (\<forall>i<length rs. getTotalItems (rs ! m) \<le> getTotalItems (rs ! i)))"
      by blast+
    from alt show ?thesis
    proof
      assume "c' = c \<and> (\<forall>r\<in>set rs. l \<le> getTotalItems r)"
      with False nz nzs show ?thesis by simp
    next
      assume "\<exists>m<length rs. c' = Some (Suc k + m) \<and> getTotalItems (rs ! m) < l \<and>
           (\<forall>i<m. getTotalItems (rs ! m) < getTotalItems (rs ! i)) \<and>
           (\<forall>i<length rs. getTotalItems (rs ! m) \<le> getTotalItems (rs ! i))"
      then obtain m where m: "m < length rs" "c' = Some (Suc k + m)"
        "getTotalItems (rs ! m) < l"
        "\<forall>i<m. getTotalItems (rs ! m) < getTotalItems (rs ! i)"
        "\<forall>i<length rs. getTotalItems (rs ! m) \<le> getTotalItems (rs ! i)" by blast
      with False nz nzs show ?thesis
        by (intro conjI disjI2 exI[of _ "Suc m"]) (simp_all add: All_less_Suc2)
    qed
  qed
qed

section \<open>What the register operations do\<close>

lemma lockRegister_Returned:
  "lockRegister r = Returned v r' \<longleftrightarrow> \<not> lock r \<and> r' = r\<lparr>lock := True\<rparr>"
  by (auto simp: lockRegister_def)

lemma addItemToCart_Returned:
  assumes "addItemToCart cid item_id r = Returned v r'"
  shows "\<not> lock r"
    and "r' = r\<lparr>customer_cart_map :=
                  AList.update cid
                    (addItem item_id (case map_of (customer_cart_map r) cid of
                                        Some c \<Rightarrow> c | None \<Rightarrow> Cart_init cid))
                    (customer_cart_map r)\<rparr>"
  using assms by (auto simp: addItemToCart_eq split: if_splits)

lemma addItemToCart_not_Raised: "addItemToCart cid item_id r \<noteq> Raised e r'"
  by (simp add: addItemToCart_eq)

lemma addItemToCart_free:
  "\<not> lock r \<Longrightarrow> \<exists>r'. addItemToCart cid item_id r = Returned () r'"
  by (simp add: addItemToCart_eq)

lemma addItemToCart_effect:
  assumes "addItemToCart cid item_id r = Returned v r'"
  shows "lock r' = lock r" and "register_id r' = register_id r"
    and "customers r' = insert cid (customers r)"
    and "cartItems cid r' = cartItems cid r @ [item_id]"
    and "c' \<noteq> cid \<Longrightarrow> map_of (customer_cart_map r') c' = map_of (customer_cart_map r) c'"
    and "AList.delete cid (customer_cart_map r') = AList.delete cid (customer_cart_map r)"
  using addItemToCart_Returned[OF assms]
  by (auto simp: customers_def cartItems_def dom_update update_conv' delete_update_same
      addItem_def Cart_init_def split: option.splits)

lemma checkoutCart_Returned:
  assumes "checkoutCart cid r = Returned v r'"
  shows "\<not> lock r" and "cid \<in> customers r"
    and "r' = r\<lparr>customer_cart_map := AList.delete cid (customer_cart_map r)\<rparr>"
  using assms by (auto simp: checkoutCart_eq customers_def map_of_eq_None_iff split: if_splits)

lemma checkoutCart_Raised:
  assumes "checkoutCart cid r = Raised e r'"
  shows "\<not> lock r" and "cid \<notin> customers r" and "e = CartDoesNotExist"
    and "r' = r\<lparr>lock := True\<rparr>"
  using assms by (auto simp: checkoutCart_eq customers_def map_of_eq_None_iff split: if_splits)

lemma dom_delete: "fst ` set (AList.delete k al) = fst ` set al - {k}"
proof -
  have "fst ` set (AList.delete k al) = set (map fst (AList.delete k al))" by simp
  also have "\<dots> = set (map fst al) - {k}" by (simp only: delete_keys set_removeAll)
  finally show ?thesis by simp
qed

lemma checkoutCart_effect:
  assumes "checkoutCart cid r = Returned v r'"
  shows "lock r' = lock r" and "register_id r' = register_id r"
    and "customers r' = customers r - {cid}"
    and "cartItems cid r' = []"
    and "c' \<noteq> cid \<Longrightarrow> map_of (customer_cart_map r') c' = map_of (customer_cart_map r) c'"
  using checkoutCart_Returned[OF assms]
  by (simp_all add: customers_def cartItems_def delete_conv' dom_delete)

section \<open>What the store operations do\<close>

lemma atRegister_Returned:
  "atRegister k f s = Returned v s' \<longleftrightarrow>
     k < length (registers s) \<and>
     (\<exists>r'. f (registers s ! k) = Returned v r' \<and> s' = s\<lparr>registers := (registers s)[k := r']\<rparr>)"
  by (auto simp: atRegister_def inStore_def split: outcome.splits)

lemma atRegister_Raised:
  "atRegister k f s = Raised e s' \<longleftrightarrow>
     (k < length (registers s) \<and>
      (\<exists>r'. f (registers s ! k) = Raised e r' \<and> s' = s\<lparr>registers := (registers s)[k := r']\<rparr>)) \<or>
     (\<not> k < length (registers s) \<and> e = NoSuchRegister \<and> s' = s)"
  by (auto simp: atRegister_def inStore_def split: outcome.splits)

lemma atRegister_Blocked:
  "atRegister k f s = Blocked \<longleftrightarrow> k < length (registers s) \<and> f (registers s ! k) = Blocked"
  by (auto simp: atRegister_def inStore_def split: outcome.splits)

lemma andThen_Returned:
  "andThen m f = Returned v s' \<longleftrightarrow> (\<exists>u s1. m = Returned u s1 \<and> f u s1 = Returned v s')"
  by (cases m) auto

lemma andThen_Raised:
  "andThen m f = Raised e s' \<longleftrightarrow>
     m = Raised e s' \<or> (\<exists>u s1. m = Returned u s1 \<and> f u s1 = Raised e s')"
  by (cases m) auto

lemma andThen_Blocked:
  "andThen m f = Blocked \<longleftrightarrow> m = Blocked \<or> (\<exists>u s1. m = Returned u s1 \<and> f u s1 = Blocked)"
  by (cases m) auto

lemma getLeastUtilizedRegister_Returned:
  assumes "getLeastUtilizedRegister s = Returned k s'"
  shows "s' = s" and "k < length (registers s)" and "\<forall>r\<in>set (registers s). \<not> lock r"
proof -
  from assms have free: "\<not> (\<exists>r\<in>set (registers s). lock r)"
    by (auto simp: getLeastUtilizedRegister_eq split: if_splits)
  then show "\<forall>r\<in>set (registers s). \<not> lock r" by blast
  from assms free show "s' = s"
    by (auto simp: getLeastUtilizedRegister_eq split: scan.splits option.splits)
  show "k < length (registers s)"
  proof (cases "scanRegisters (registers s) 0 sys_maxsize None")
    case (Found j)
    with assms free have "j = k" by (auto simp: getLeastUtilizedRegister_eq)
    with scanRegisters_Found[OF Found] show ?thesis by auto
  next
    case (Lowest c)
    with assms free have "c = Some k"
      by (auto simp: getLeastUtilizedRegister_eq split: option.splits)
    with scanRegisters_Lowest[OF Lowest] show ?thesis by auto
  qed
qed

lemma getLeastUtilizedRegister_Raised:
  assumes "getLeastUtilizedRegister s = Raised e s'"
  shows "e = InvalidRegisterState"
    and "s' = s\<lparr>registers := map (\<lambda>r. r\<lparr>lock := True\<rparr>) (registers s)\<rparr>"
  using assms
  by (auto simp: getLeastUtilizedRegister_eq split: if_splits scan.splits option.splits)

lemma fold_state_locked:
  "fold (\<lambda>r st. st(register_id r \<mapsto> getRegisterState r)) (map (\<lambda>r. r\<lparr>lock := b\<rparr>) rs) m =
   fold (\<lambda>r st. st(register_id r \<mapsto> getRegisterState r)) rs m"
  by (induction rs arbitrary: m) simp_all

lemma getAllRegisterState_eq:
  "getAllRegisterState s =
     (if \<exists>r\<in>set (registers s). lock r then Blocked
      else Returned
             (fold (\<lambda>r st. st(register_id r \<mapsto> getRegisterState r)) (registers s) Map.empty) s)"
  by (simp add: getAllRegisterState_def lockRegisters_def unlockRegisters_def inStore_def
      forEach_lockRegister forEach_unlockRegister_locked fold_state_locked map_relock_False
      Let_def)

lemma assignItem_Returned:
  assumes "assignItem cid item_id s = Returned v s'"
  shows "\<exists>k r'. k < length (registers s) \<and>
           addItemToCart cid item_id (registers s ! k) = Returned () r' \<and>
           registers s' = (registers s)[k := r'] \<and>
           register_map s' = (register_map s)(cid \<mapsto> k) \<and>
           (register_map s cid = Some k \<or>
            register_map s cid = None \<and> getLeastUtilizedRegister s = Returned k s)"
proof (cases "register_map s cid")
  case None
  with assms obtain k s1 s2 where
    g: "getLeastUtilizedRegister s = Returned k s1"
    and a: "atRegister k (addItemToCart cid item_id) s1 = Returned () s2"
    and s': "s' = s2\<lparr>register_map := (register_map s2)(cid \<mapsto> k)\<rparr>"
    by (auto simp: assignItem_def andThen_Returned)
  from getLeastUtilizedRegister_Returned(1)[OF g] have "s1 = s" .
  with a g s' None show ?thesis by (auto simp: atRegister_Returned)
next
  case (Some k)
  with assms have "atRegister k (addItemToCart cid item_id) s = Returned v s'"
    by (simp add: assignItem_def)
  with Some show ?thesis by (auto simp: atRegister_Returned map_upd_triv)
qed

lemma assignItem_Raised:
  assumes "assignItem cid item_id s = Raised e s'"
  shows "(\<exists>k. register_map s cid = Some k \<and> \<not> k < length (registers s) \<and>
              e = NoSuchRegister \<and> s' = s) \<or>
         (register_map s cid = None \<and> getLeastUtilizedRegister s = Raised e s')"
proof (cases "register_map s cid")
  case None
  with assms have "getLeastUtilizedRegister s = Raised e s' \<or>
    (\<exists>k s1. getLeastUtilizedRegister s = Returned k s1 \<and>
       atRegister k (addItemToCart cid item_id) s1 = Raised e s')"
    by (auto simp: assignItem_def andThen_Raised)
  then show ?thesis
  proof
    assume "getLeastUtilizedRegister s = Raised e s'"
    with None show ?thesis by simp
  next
    assume "\<exists>k s1. getLeastUtilizedRegister s = Returned k s1 \<and>
       atRegister k (addItemToCart cid item_id) s1 = Raised e s'"
    then obtain k s1 where g: "getLeastUtilizedRegister s = Returned k s1"
      and a: "atRegister k (addItemToCart cid item_id) s1 = Raised e s'" by blast
    from getLeastUtilizedRegister_Returned[OF g] a show ?thesis
      by (auto simp: atRegister_Raised addItemToCart_not_Raised)
  qed
next
  case (Some k)
  with assms have "atRegister k (addItemToCart cid item_id) s = Raised e s'"
    by (simp add: assignItem_def)
  with Some show ?thesis by (auto simp: atRegister_Raised addItemToCart_not_Raised)
qed

lemma checkoutCustomer_Returned:
  assumes "checkoutCustomer cid s = Returned v s'"
  shows "\<exists>k r'. register_map s cid = Some k \<and> k < length (registers s) \<and>
           checkoutCart cid (registers s ! k) = Returned () r' \<and>
           registers s' = (registers s)[k := r'] \<and>
           register_map s' = (register_map s)(cid := None)"
  using assms
  by (auto simp: checkoutCustomer_def andThen_Returned atRegister_Returned split: option.splits)

lemma checkoutCustomer_Raised:
  assumes "checkoutCustomer cid s = Raised e s'"
  shows "(register_map s cid = None \<and> e = CheckoutWithoutCart \<and> s' = s) \<or>
         (\<exists>k. register_map s cid = Some k \<and>
            ((\<not> k < length (registers s) \<and> e = NoSuchRegister \<and> s' = s) \<or>
             (k < length (registers s) \<and>
              (\<exists>r'. checkoutCart cid (registers s ! k) = Raised e r' \<and>
                    s' = s\<lparr>registers := (registers s)[k := r']\<rparr>))))"
  using assms
  by (auto simp: checkoutCustomer_def andThen_Raised atRegister_Raised split: option.splits)

section \<open>Running the model on concrete stores\<close>

lemma nat2: "[0..<2] = [0, Suc 0]"
  by (simp add: numeral_2_eq_2)

lemmas eval_defs = Store_init_def Register_init_def assignItem_def checkoutCustomer_def
  atRegister_def inStore_def addItemToCart_eq checkoutCart_eq getLeastUtilizedRegister_eq
  getTotalItems_def size_cart_def addItem_def Cart_init_def sys_maxsize_def nat2

lemma scenario_runs:
  "\<exists>s s'. run scenario (Store_init 2) = Some s \<and> checkoutCustomer 1 s = Returned () s'"
  by (simp add: scenario_def eval_defs)


section \<open>The least-utilized scan\<close>

lemma scanRegisters_pool:
  assumes "rs \<noteq> []" and "\<forall>r\<in>set rs. getTotalItems r < sys_maxsize"
  shows "scanRegisters rs 0 sys_maxsize None \<noteq> Lowest None"
proof
  assume "scanRegisters rs 0 sys_maxsize None = Lowest None"
  from scanRegisters_Lowest[OF this] have "\<forall>r\<in>set rs. sys_maxsize \<le> getTotalItems r"
    by simp
  moreover from assms(1) obtain r where "r \<in> set rs" by (cases rs) auto
  ultimately show False using assms(2) by fastforce
qed

text \<open>
  Claim C1. On a store with a non-empty pool, with no register lock held and every
  register's total below \<^verbatim>\<open>sys.maxsize\<close> (more list slots than that do not fit
  the address space of the interpreter), \<^verbatim>\<open>getLeastUtilizedRegister\<close> returns a
  register of the pool and leaves the store as it was. If some register holds no item,
  the register returned is the first such register in pool order. Otherwise it is the
  register whose total is strictly lower than the total of every register before it and
  not higher than the total of any register of the pool: the earliest register among
  those with the lowest total, so a later register with an equal total does not replace it.
\<close>

theorem getLeastUtilizedRegister_selects:
  assumes pool: "registers s \<noteq> []"
    and free: "\<forall>r\<in>set (registers s). \<not> lock r"
    and fits: "\<forall>r\<in>set (registers s). getTotalItems r < sys_maxsize"
  shows "\<exists>k<length (registers s).
           getLeastUtilizedRegister s = Returned k s \<and>
           (if \<exists>r\<in>set (registers s). getTotalItems r = 0
            then getTotalItems (registers s ! k) = 0 \<and>
                 (\<forall>j<k. getTotalItems (registers s ! j) \<noteq> 0)
            else (\<forall>j<k. getTotalItems (registers s ! k) < getTotalItems (registers s ! j)) \<and>
                 (\<forall>j<length (registers s).
                    getTotalItems (registers s ! k) \<le> getTotalItems (registers s ! j)))"
proof (cases "scanRegisters (registers s) 0 sys_maxsize None")
  case (Found j)
  from scanRegisters_Found[OF Found] obtain m where m: "m < length (registers s)" "j = m"
    "getTotalItems (registers s ! m) = 0" "\<forall>i<m. getTotalItems (registers s ! i) \<noteq> 0"
    by auto
  from m(1,3) have "\<exists>r\<in>set (registers s). getTotalItems r = 0"
    using nth_mem by blast
  moreover from Found free have "getLeastUtilizedRegister s = Returned j s"
    by (simp add: getLeastUtilizedRegister_eq)
  ultimately show ?thesis using m by auto
next
  case (Lowest c)
  with scanRegisters_pool[OF pool fits] obtain j where c: "c = Some j" by (cases c) auto
  from scanRegisters_Lowest[OF Lowest] c
  have nz: "\<forall>r\<in>set (registers s). getTotalItems r \<noteq> 0"
    and "\<exists>m<length (registers s). j = m \<and>
       (\<forall>i<m. getTotalItems (registers s ! m) < getTotalItems (registers s ! i)) \<and>
       (\<forall>i<length (registers s).
          getTotalItems (registers s ! m) \<le> getTotalItems (registers s ! i))"
    by auto
  moreover from Lowest c free have "getLeastUtilizedRegister s = Returned j s"
    by (simp add: getLeastUtilizedRegister_eq)
  ultimately show ?thesis by auto
qed

theorem getLeastUtilizedRegister_selects_witness:
  "map getTotalItems (registers busy_store) = [2, 1, 1] \<and>
   map lock (registers busy_store) = [False, False, False] \<and>
   getLeastUtilizedRegister busy_store = Returned 1 busy_store \<and>
   map getTotalItems (registers idle_store) = [2, 0, 0] \<and>
   getLeastUtilizedRegister idle_store = Returned 1 idle_store"
proof -
  have i1: "registers idle_store \<noteq> []" by (simp add: idle_store_def)
  have i2: "\<forall>r\<in>set (registers idle_store). \<not> lock r" by (simp add: idle_store_def)
  have i3: "\<forall>r\<in>set (registers idle_store). getTotalItems r < sys_maxsize"
    by (simp add: idle_store_def getTotalItems_def size_cart_def sys_maxsize_def)
  have i4: "(\<exists>r\<in>set (registers idle_store). getTotalItems r = 0) = True"
    by (simp add: idle_store_def getTotalItems_def size_cart_def)
  have ti: "map getTotalItems (registers idle_store) = [2, 0, 0]"
    by (simp add: idle_store_def getTotalItems_def size_cart_def)
  have ilen: "length (registers idle_store) = 3" by (simp add: idle_store_def)
  have u0: "getTotalItems (registers idle_store ! 0) = 2"
    and u1: "getTotalItems (registers idle_store ! 1) = 0"
    by (simp_all add: idle_store_def getTotalItems_def size_cart_def)
  from getLeastUtilizedRegister_selects[OF i1 i2 i3] obtain m where
    m: "m < length (registers idle_store)"
       "getLeastUtilizedRegister idle_store = Returned m idle_store"
       "getTotalItems (registers idle_store ! m) = 0"
       "\<forall>j<m. getTotalItems (registers idle_store ! j) \<noteq> 0"
    unfolding i4 by auto
  from m(1) ilen have "m = 0 \<or> m = 1 \<or> m = 2" by auto
  then have "m = 1"
  proof (elim disjE)
    assume "m = 0"
    with m(3) u0 show ?thesis by simp
  next
    assume "m = 1" then show ?thesis .
  next
    assume "m = 2"
    with m(4) have "getTotalItems (registers idle_store ! 1) \<noteq> 0" by simp
    with u1 show ?thesis by simp
  qed
  with m(2) have idle: "getLeastUtilizedRegister idle_store = Returned 1 idle_store" by simp
  have t: "map getTotalItems (registers busy_store) = [2, 1, 1]"
    by (simp add: busy_store_def getTotalItems_def size_cart_def)
  have l: "map lock (registers busy_store) = [False, False, False]"
    by (simp add: busy_store_def)
  have h1: "registers busy_store \<noteq> []" by (simp add: busy_store_def)
  have h2: "\<forall>r\<in>set (registers busy_store). \<not> lock r" by (simp add: busy_store_def)
  have h3: "\<forall>r\<in>set (registers busy_store). getTotalItems r < sys_maxsize"
    by (simp add: busy_store_def getTotalItems_def size_cart_def sys_maxsize_def)
  have h4: "(\<exists>r\<in>set (registers busy_store). getTotalItems r = 0) = False"
    by (simp add: busy_store_def getTotalItems_def size_cart_def)
  have len: "length (registers busy_store) = 3" by (simp add: busy_store_def)
  have t0: "getTotalItems (registers busy_store ! 0) = 2"
    and t1: "getTotalItems (registers busy_store ! 1) = 1"
    and t2: "getTotalItems (registers busy_store ! 2) = 1"
    by (simp_all add: busy_store_def getTotalItems_def size_cart_def)
  from getLeastUtilizedRegister_selects[OF h1 h2 h3] obtain k where
    k: "k < length (registers busy_store)"
       "getLeastUtilizedRegister busy_store = Returned k busy_store"
       "\<forall>j<k. getTotalItems (registers busy_store ! k) < getTotalItems (registers busy_store ! j)"
       "\<forall>j<length (registers busy_store).
          getTotalItems (registers busy_store ! k) \<le> getTotalItems (registers busy_store ! j)"
    unfolding h4 by auto
  from k(1) len have "k = 0 \<or> k = 1 \<or> k = 2" by auto
  then have "k = 1"
  proof (elim disjE)
    assume "k = 0"
    with k(4) len
    have "getTotalItems (registers busy_store ! 0) \<le> getTotalItems (registers busy_store ! 1)"
      by simp
    with t0 t1 show ?thesis by simp
  next
    assume "k = 1" then show ?thesis .
  next
    assume "k = 2"
    with k(3)
    have "getTotalItems (registers busy_store ! 2) < getTotalItems (registers busy_store ! 1)"
      by simp
    with t1 t2 show ?thesis by simp
  qed
  with k(2) have "getLeastUtilizedRegister busy_store = Returned 1 busy_store" by simp
  with t l ti idle show ?thesis by (intro conjI)
qed

text \<open>
  Claim C6. On a store with a non-empty pool whose registers each hold fewer than
  \<^verbatim>\<open>sys.maxsize\<close> items, \<^verbatim>\<open>getLeastUtilizedRegister\<close> never raises: the branch
  \<^verbatim>\<open>raise Exception("Invalid register state")\<close> is not reached. When no register lock
  is held the call returns a register of the pool.
\<close>

theorem getLeastUtilizedRegister_never_invalid:
  assumes pool: "registers s \<noteq> []"
    and fits: "\<forall>r\<in>set (registers s). getTotalItems r < sys_maxsize"
  shows "(\<forall>e s'. getLeastUtilizedRegister s \<noteq> Raised e s') \<and>
         ((\<forall>r\<in>set (registers s). \<not> lock r) \<longrightarrow>
            (\<exists>k<length (registers s). getLeastUtilizedRegister s = Returned k s))"
proof -
  note np = scanRegisters_pool[OF pool fits]
  have a: "getLeastUtilizedRegister s \<noteq> Raised e s'" for e s'
    using np by (simp add: getLeastUtilizedRegister_eq split: scan.split option.split)
  have b: "\<exists>k<length (registers s). getLeastUtilizedRegister s = Returned k s"
    if free: "\<forall>r\<in>set (registers s). \<not> lock r"
  proof (cases "scanRegisters (registers s) 0 sys_maxsize None")
    case (Found j)
    from scanRegisters_Found[OF Found] have "j < length (registers s)" by auto
    with Found free show ?thesis by (simp add: getLeastUtilizedRegister_eq)
  next
    case (Lowest c)
    with np obtain j where c: "c = Some j" by (cases c) auto
    from scanRegisters_Lowest[OF Lowest] c have "j < length (registers s)" by auto
    with Lowest c free show ?thesis by (simp add: getLeastUtilizedRegister_eq)
  qed
  from a b show ?thesis by blast
qed

theorem getLeastUtilizedRegister_never_invalid_witness:
  "(\<forall>e s'. getLeastUtilizedRegister busy_store \<noteq> Raised e s') \<and>
   (\<exists>k<length (registers busy_store).
      getLeastUtilizedRegister busy_store = Returned k busy_store)"
proof -
  have h1: "registers busy_store \<noteq> []" by (simp add: busy_store_def)
  have h2: "\<forall>r\<in>set (registers busy_store). getTotalItems r < sys_maxsize"
    by (simp add: busy_store_def getTotalItems_def size_cart_def sys_maxsize_def)
  have h3: "\<forall>r\<in>set (registers busy_store). \<not> lock r" by (simp add: busy_store_def)
  from getLeastUtilizedRegister_never_invalid[OF h1 h2] h3 show ?thesis by blast
qed

section \<open>Locks on the error path, and the empty pool\<close>

lemma map_list_update_same:
  "f y = f (xs ! k) \<Longrightarrow> map f (xs[k := y]) = map f xs"
  by (cases "k < length xs") (simp_all add: map_update list_update_same_conv list_update_beyond)

lemma checkoutCustomer_Raised_frame:
  assumes "checkoutCustomer cid s = Raised e s'"
  shows "register_map s' = register_map s"
    and "map customer_cart_map (registers s') = map customer_cart_map (registers s)"
  using checkoutCustomer_Raised[OF assms]
  by (auto dest!: checkoutCart_Raised(4) simp: map_list_update_same)

text \<open>
  Claim C4 (refuted by the code). \<^verbatim>\<open>checkoutCart\<close> for a customer with no cart at the
  register acquires the lock and raises before \<^verbatim>\<open>unlockRegister\<close>: the register's lock
  is still held after the call.
\<close>

theorem checkoutCart_error_keeps_lock:
  "checkoutCart (1::nat) (Register_init 0 :: (nat, nat) register) =
     Raised CartDoesNotExist
       \<lparr>customer_cart_map = [], lock = True, register_id = 0\<rparr>"
  by (simp add: checkoutCart_def lockRegister_def Register_init_def)

lemma store_registers_same: "registers s = rs \<Longrightarrow> s\<lparr>registers := rs\<rparr> = s"
  by (cases s) simp

lemma getLeastUtilizedRegister_empty:
  "registers s = [] \<Longrightarrow> getLeastUtilizedRegister s = Raised InvalidRegisterState s"
  by (simp add: getLeastUtilizedRegister_eq store_registers_same)

text \<open>
  Claim C9. On a store with no register, \<^verbatim>\<open>getLeastUtilizedRegister\<close> raises "Invalid
  register state" and so does \<^verbatim>\<open>assignItem\<close> for a customer that is not in
  \<open>register_map\<close>; the store is left as it was. \<^verbatim>\<open>Store(n)\<close> with \<open>n \<le> 0\<close> is such
  a store, and none of its customers is in \<open>register_map\<close>.
\<close>

theorem empty_pool_invalid_state:
  "(registers (s :: ('c, 'i) store) = [] \<longrightarrow>
      getLeastUtilizedRegister s = Raised InvalidRegisterState s \<and>
      (register_map s cid = None \<longrightarrow> assignItem cid item_id s = Raised InvalidRegisterState s)) \<and>
   (n \<le> 0 \<longrightarrow>
      registers (Store_init n :: ('c, 'i) store) = [] \<and>
      getLeastUtilizedRegister (Store_init n :: ('c, 'i) store)
        = Raised InvalidRegisterState (Store_init n) \<and>
      assignItem cid item_id (Store_init n) = Raised InvalidRegisterState (Store_init n))"
proof -
  have a: "getLeastUtilizedRegister t = Raised InvalidRegisterState t \<and>
      (register_map t cid = None \<longrightarrow> assignItem cid item_id t = Raised InvalidRegisterState t)"
    if "registers t = []" for t :: "('c, 'i) store"
    using that by (simp add: getLeastUtilizedRegister_empty assignItem_def)
  have b: "registers (Store_init n :: ('c, 'i) store) = []"
    "register_map (Store_init n :: ('c, 'i) store) cid = None" if "n \<le> 0"
    using that by (simp_all add: Store_init_def)
  from a b show ?thesis by blast
qed

theorem empty_pool_invalid_state_witness:
  "getLeastUtilizedRegister (Store_init 0 :: (nat, nat) store)
     = Raised InvalidRegisterState (Store_init 0) \<and>
   assignItem 1 10 (Store_init 0 :: (nat, nat) store)
     = Raised InvalidRegisterState (Store_init 0) \<and>
   assignItem 1 10 (Store_init (- 3) :: (nat, nat) store)
     = Raised InvalidRegisterState (Store_init (- 3))"
proof -
  have r: "registers (Store_init 0 :: (nat, nat) store) = []"
    and m: "register_map (Store_init 0 :: (nat, nat) store) 1 = None"
    by (simp_all add: Store_init_def)
  have n: "(- 3 :: int) \<le> 0" by simp
  from empty_pool_invalid_state[of "Store_init 0 :: (nat, nat) store" 1 10 0] r m
    empty_pool_invalid_state[of "Store_init 0 :: (nat, nat) store" 1 10 "- 3"] n
  show ?thesis by blast
qed

section \<open>What a successful call leaves unchanged\<close>

text \<open>
  Claim C10. A successful \<^verbatim>\<open>assignItem(c, i)\<close> appends \<open>i\<close> to \<open>c\<close>'s cart at one
  register \<open>k\<close>, the one \<open>register_map\<close> then gives for \<open>c\<close>. Every other register
  is unchanged, register \<open>k\<close> keeps its lock state and id, its cart map without \<open>c\<close>'s
  entry is the same list as before (so every other customer's cart and its position
  are unchanged), and every other customer's routing entry is unchanged. A successful
  \<^verbatim>\<open>checkoutCustomer(c)\<close> deletes \<open>c\<close>'s entry from the cart map of the register
  \<open>register_map\<close> gave for \<open>c\<close> and \<open>c\<close>'s routing entry, and nothing else.
\<close>

theorem store_frame:
  "(assignItem cid item_id s = Returned v s' \<longrightarrow>
      (\<exists>k<length (registers s).
         register_map s' cid = Some k \<and>
         length (registers s') = length (registers s) \<and>
         (\<forall>j<length (registers s). j \<noteq> k \<longrightarrow> registers s' ! j = registers s ! j) \<and>
         lock (registers s' ! k) = lock (registers s ! k) \<and>
         register_id (registers s' ! k) = register_id (registers s ! k) \<and>
         cartItems cid (registers s' ! k) = cartItems cid (registers s ! k) @ [item_id] \<and>
         AList.delete cid (customer_cart_map (registers s' ! k)) =
           AList.delete cid (customer_cart_map (registers s ! k)) \<and>
         (\<forall>c'. c' \<noteq> cid \<longrightarrow>
            map_of (customer_cart_map (registers s' ! k)) c' =
              map_of (customer_cart_map (registers s ! k)) c' \<and>
            register_map s' c' = register_map s c'))) \<and>
   (checkoutCustomer cid s = Returned v s' \<longrightarrow>
      (\<exists>k<length (registers s).
         register_map s cid = Some k \<and>
         register_map s' = (register_map s)(cid := None) \<and>
         length (registers s') = length (registers s) \<and>
         (\<forall>j<length (registers s). j \<noteq> k \<longrightarrow> registers s' ! j = registers s ! j) \<and>
         registers s' ! k =
           (registers s ! k)\<lparr>customer_cart_map :=
              AList.delete cid (customer_cart_map (registers s ! k))\<rparr>))"
proof (intro conjI impI)
  assume "assignItem cid item_id s = Returned v s'"
  from assignItem_Returned[OF this] obtain k r' where k: "k < length (registers s)"
    and a: "addItemToCart cid item_id (registers s ! k) = Returned () r'"
    and rs: "registers s' = (registers s)[k := r']"
    and rm: "register_map s' = (register_map s)(cid \<mapsto> k)" by blast
  from k rs have at_k: "registers s' ! k = r'" by simp
  note eff = addItemToCart_effect[OF a]
  show "\<exists>k<length (registers s).
         register_map s' cid = Some k \<and>
         length (registers s') = length (registers s) \<and>
         (\<forall>j<length (registers s). j \<noteq> k \<longrightarrow> registers s' ! j = registers s ! j) \<and>
         lock (registers s' ! k) = lock (registers s ! k) \<and>
         register_id (registers s' ! k) = register_id (registers s ! k) \<and>
         cartItems cid (registers s' ! k) = cartItems cid (registers s ! k) @ [item_id] \<and>
         AList.delete cid (customer_cart_map (registers s' ! k)) =
           AList.delete cid (customer_cart_map (registers s ! k)) \<and>
         (\<forall>c'. c' \<noteq> cid \<longrightarrow>
            map_of (customer_cart_map (registers s' ! k)) c' =
              map_of (customer_cart_map (registers s ! k)) c' \<and>
            register_map s' c' = register_map s c')"
  proof (intro exI[of _ k] conjI allI impI)
    show "k < length (registers s)" by (rule k)
    show "register_map s' cid = Some k" by (simp add: rm)
    show "length (registers s') = length (registers s)" by (simp add: rs)
    show "registers s' ! j = registers s ! j" if "j \<noteq> k" for j using that by (simp add: rs)
    show "lock (registers s' ! k) = lock (registers s ! k)" by (simp add: at_k eff(1))
    show "register_id (registers s' ! k) = register_id (registers s ! k)"
      by (simp add: at_k eff(2))
    show "cartItems cid (registers s' ! k) = cartItems cid (registers s ! k) @ [item_id]"
      by (simp add: at_k eff(4))
    show "AList.delete cid (customer_cart_map (registers s' ! k)) =
           AList.delete cid (customer_cart_map (registers s ! k))"
      by (simp add: at_k eff(6))
    show "map_of (customer_cart_map (registers s' ! k)) c' =
              map_of (customer_cart_map (registers s ! k)) c'" if "c' \<noteq> cid" for c'
      using that by (simp add: at_k eff(5))
    show "register_map s' c' = register_map s c'" if "c' \<noteq> cid" for c'
      using that by (simp add: rm)
  qed
next
  assume "checkoutCustomer cid s = Returned v s'"
  from checkoutCustomer_Returned[OF this] obtain k r' where
    rm0: "register_map s cid = Some k" and k: "k < length (registers s)"
    and c: "checkoutCart cid (registers s ! k) = Returned () r'"
    and rs: "registers s' = (registers s)[k := r']"
    and rm: "register_map s' = (register_map s)(cid := None)" by blast
  from checkoutCart_Returned(3)[OF c] k rs rm0 rm
  show "\<exists>k<length (registers s).
         register_map s cid = Some k \<and>
         register_map s' = (register_map s)(cid := None) \<and>
         length (registers s') = length (registers s) \<and>
         (\<forall>j<length (registers s). j \<noteq> k \<longrightarrow> registers s' ! j = registers s ! j) \<and>
         registers s' ! k =
           (registers s ! k)\<lparr>customer_cart_map :=
              AList.delete cid (customer_cart_map (registers s ! k))\<rparr>"
    by (intro exI[of _ k]) simp
qed

lemma busy_assign: "\<exists>s'. assignItem 2 20 busy_store = Returned () s'"
  by (simp add: assignItem_def busy_store_def atRegister_def inStore_def addItemToCart_eq)

lemma busy_checkout: "\<exists>s'. checkoutCustomer 2 busy_store = Returned () s'"
  by (simp add: checkoutCustomer_def busy_store_def atRegister_def inStore_def checkoutCart_eq)

theorem store_frame_witness:
  "(\<exists>s'. assignItem 2 20 busy_store = Returned () s' \<and>
      register_map s' 2 = Some 1 \<and>
      registers s' ! 0 = registers busy_store ! 0 \<and>
      registers s' ! 2 = registers busy_store ! 2 \<and>
      cartItems 2 (registers s' ! 1) = [12, 20] \<and>
      register_map s' 1 = Some 0 \<and> register_map s' 3 = Some 2) \<and>
   (\<exists>s'. checkoutCustomer 2 busy_store = Returned () s' \<and>
      register_map s' 2 = None \<and>
      registers s' ! 0 = registers busy_store ! 0 \<and>
      registers s' ! 2 = registers busy_store ! 2 \<and>
      customer_cart_map (registers s' ! 1) = [] \<and>
      register_map s' 1 = Some 0 \<and> register_map s' 3 = Some 2)"
proof -
  have rm1: "register_map busy_store 1 = Some 0"
    and rm2: "register_map busy_store 2 = Some 1"
    and rm3: "register_map busy_store 3 = Some 2"
    and len: "length (registers busy_store) = 3"
    and ci: "cartItems 2 (registers busy_store ! 1) = [12]"
    and del: "AList.delete 2 (customer_cart_map (registers busy_store ! 1)) = []"
    by (simp_all add: busy_store_def cartItems_def)
  from busy_assign obtain s1 where s1: "assignItem 2 20 busy_store = Returned () s1" ..
  from assignItem_Returned[OF s1] rm2 have r1: "register_map s1 2 = Some 1" by fastforce
  from store_frame[of 2 20 busy_store "()" s1] s1 have
    "\<exists>k<length (registers busy_store).
         register_map s1 2 = Some k \<and>
         length (registers s1) = length (registers busy_store) \<and>
         (\<forall>j<length (registers busy_store). j \<noteq> k \<longrightarrow>
            registers s1 ! j = registers busy_store ! j) \<and>
         lock (registers s1 ! k) = lock (registers busy_store ! k) \<and>
         register_id (registers s1 ! k) = register_id (registers busy_store ! k) \<and>
         cartItems 2 (registers s1 ! k) = cartItems 2 (registers busy_store ! k) @ [20] \<and>
         AList.delete 2 (customer_cart_map (registers s1 ! k)) =
           AList.delete 2 (customer_cart_map (registers busy_store ! k)) \<and>
         (\<forall>c'. c' \<noteq> 2 \<longrightarrow>
            map_of (customer_cart_map (registers s1 ! k)) c' =
              map_of (customer_cart_map (registers busy_store ! k)) c' \<and>
            register_map s1 c' = register_map busy_store c')"
    by (rule conjunct1[THEN mp])
  then obtain k where k2: "register_map s1 2 = Some k"
    and k3: "\<forall>j<length (registers busy_store). j \<noteq> k \<longrightarrow>
            registers s1 ! j = registers busy_store ! j"
    and k4: "cartItems 2 (registers s1 ! k) = cartItems 2 (registers busy_store ! k) @ [20]"
    and k5: "\<forall>c'. c' \<noteq> 2 \<longrightarrow>
            map_of (customer_cart_map (registers s1 ! k)) c' =
              map_of (customer_cart_map (registers busy_store ! k)) c' \<and>
            register_map s1 c' = register_map busy_store c'"
    by (elim exE conjE)
  from k2 r1 have k1: "k = 1" by simp
  from k3 k1 len have a0: "registers s1 ! 0 = registers busy_store ! 0"
    and a2: "registers s1 ! 2 = registers busy_store ! 2" by simp_all
  from k4 k1 ci have a1: "cartItems 2 (registers s1 ! 1) = [12, 20]" by simp
  from k5 rm1 rm3 have a3: "register_map s1 1 = Some 0" and a4: "register_map s1 3 = Some 2"
    by simp_all
  from s1 r1 a0 a2 a1 a3 a4
  have A: "\<exists>s'. assignItem 2 20 busy_store = Returned () s' \<and>
      register_map s' 2 = Some 1 \<and>
      registers s' ! 0 = registers busy_store ! 0 \<and>
      registers s' ! 2 = registers busy_store ! 2 \<and>
      cartItems 2 (registers s' ! 1) = [12, 20] \<and>
      register_map s' 1 = Some 0 \<and> register_map s' 3 = Some 2"
    by (intro exI[of _ s1] conjI)
  from busy_checkout obtain s2 where s2: "checkoutCustomer 2 busy_store = Returned () s2" ..
  from store_frame[of 2 20 busy_store "()" s2] s2 have
    "\<exists>k<length (registers busy_store).
         register_map busy_store 2 = Some k \<and>
         register_map s2 = (register_map busy_store)(2 := None) \<and>
         length (registers s2) = length (registers busy_store) \<and>
         (\<forall>j<length (registers busy_store). j \<noteq> k \<longrightarrow>
            registers s2 ! j = registers busy_store ! j) \<and>
         registers s2 ! k =
           (registers busy_store ! k)\<lparr>customer_cart_map :=
              AList.delete 2 (customer_cart_map (registers busy_store ! k))\<rparr>"
    by (rule conjunct2[THEN mp])
  then obtain m where m2: "register_map busy_store 2 = Some m"
    and m3: "register_map s2 = (register_map busy_store)(2 := None)"
    and m4: "\<forall>j<length (registers busy_store). j \<noteq> m \<longrightarrow>
            registers s2 ! j = registers busy_store ! j"
    and m5: "registers s2 ! m =
           (registers busy_store ! m)\<lparr>customer_cart_map :=
              AList.delete 2 (customer_cart_map (registers busy_store ! m))\<rparr>"
    by (elim exE conjE)
  from m2 rm2 have m1: "m = 1" by simp
  from m4 m1 len have b0: "registers s2 ! 0 = registers busy_store ! 0"
    and b2: "registers s2 ! 2 = registers busy_store ! 2" by simp_all
  from m5 m1 del have b1: "customer_cart_map (registers s2 ! 1) = []" by simp
  from m3 rm1 rm3 have b3: "register_map s2 2 = None" and b4: "register_map s2 1 = Some 0"
    and b5: "register_map s2 3 = Some 2" by simp_all
  from s2 b3 b0 b2 b1 b4 b5
  have B: "\<exists>s'. checkoutCustomer 2 busy_store = Returned () s' \<and>
      register_map s' 2 = None \<and>
      registers s' ! 0 = registers busy_store ! 0 \<and>
      registers s' ! 2 = registers busy_store ! 2 \<and>
      customer_cart_map (registers s' ! 1) = [] \<and>
      register_map s' 1 = Some 0 \<and> register_map s' 3 = Some 2"
    by (intro exI[of _ s2] conjI)
  from A B show ?thesis ..
qed

section \<open>The routing invariant\<close>

lemma routed_cong:
  assumes "map customer_cart_map (registers s') = map customer_cart_map (registers s)"
    and "register_map s' = register_map s"
  shows "routed s' \<longleftrightarrow> routed s"
proof -
  from assms(1) have len: "length (registers s') = length (registers s)"
    by (rule map_eq_imp_length_eq)
  have "customers (registers s' ! k) = customers (registers s ! k)" if "k < length (registers s)" for k
  proof -
    from that len have "customer_cart_map (registers s' ! k) = map customer_cart_map (registers s') ! k"
      by simp
    also from that have "\<dots> = customer_cart_map (registers s ! k)" by (simp add: assms(1))
    finally show ?thesis by (simp add: customers_def)
  qed
  with len assms(2) show ?thesis unfolding routed_def by auto
qed

lemma getLeastUtilizedRegister_Raised_frame:
  assumes "getLeastUtilizedRegister s = Raised e s'"
  shows "register_map s' = register_map s"
    and "map customer_cart_map (registers s') = map customer_cart_map (registers s)"
  using getLeastUtilizedRegister_Raised(2)[OF assms] by (simp_all add: comp_def)

lemma assignItem_Raised_frame:
  assumes "assignItem cid item_id s = Raised e s'"
  shows "register_map s' = register_map s"
    and "map customer_cart_map (registers s') = map customer_cart_map (registers s)"
  using assignItem_Raised[OF assms] by (auto dest: getLeastUtilizedRegister_Raised_frame)

lemma perform_Raised_frame:
  assumes "perform c s = Raised e s'"
  shows "register_map s' = register_map s"
    and "map customer_cart_map (registers s') = map customer_cart_map (registers s)"
proof -
  have "register_map s' = register_map s \<and>
        map customer_cart_map (registers s') = map customer_cart_map (registers s)"
  proof (cases c)
    case (AssignItem cid item_id)
    with assms show ?thesis by (simp add: assignItem_Raised_frame)
  next
    case (CheckoutCustomer cid)
    with assms show ?thesis by (simp add: checkoutCustomer_Raised_frame)
  next
    case GetLeastUtilizedRegister
    with assms have "getLeastUtilizedRegister s = Raised e s'"
      by (auto simp: andThen_Raised)
    then show ?thesis by (simp add: getLeastUtilizedRegister_Raised_frame)
  next
    case GetAllRegisterState
    with assms show ?thesis
      by (auto simp: andThen_Raised getAllRegisterState_eq split: if_splits)
  qed
  then show "register_map s' = register_map s"
    and "map customer_cart_map (registers s') = map customer_cart_map (registers s)" by simp_all
qed

lemma perform_read_Returned:
  assumes "perform c s = Returned v s'" and "c = GetLeastUtilizedRegister \<or> c = GetAllRegisterState"
  shows "s' = s"
  using assms
  by (auto simp: andThen_Returned getAllRegisterState_eq
      dest: getLeastUtilizedRegister_Returned(1) split: if_splits)

lemma routed_assignItem:
  assumes "routed s" and "assignItem cid item_id s = Returned v s'"
  shows "routed s'"
proof -
  from assignItem_Returned[OF assms(2)] obtain k r' where k: "k < length (registers s)"
    and a: "addItemToCart cid item_id (registers s ! k) = Returned () r'"
    and rs: "registers s' = (registers s)[k := r']"
    and rm: "register_map s' = (register_map s)(cid \<mapsto> k)"
    and old: "register_map s cid = Some k \<or> register_map s cid = None" by blast
  have len: "length (registers s') = length (registers s)" by (simp add: rs)
  have at_k: "customers (registers s' ! k) = insert cid (customers (registers s ! k))"
    using k by (simp add: rs addItemToCart_effect(3)[OF a])
  have off_k: "customers (registers s' ! j) = customers (registers s ! j)" if "j \<noteq> k" for j
    using that by (simp add: rs)
  have inv: "register_map s c = Some j \<longleftrightarrow>
      j < length (registers s) \<and> c \<in> customers (registers s ! j)" for c j
    using assms(1) unfolding routed_def by blast
  have elsewhere: "\<not> (j < length (registers s) \<and> cid \<in> customers (registers s ! j))"
    if "j \<noteq> k" for j
  proof -
    from old that have "register_map s cid \<noteq> Some j" by auto
    with inv[of cid j] show ?thesis by blast
  qed
  show ?thesis
    unfolding routed_def
  proof (intro allI)
    fix c j
    show "register_map s' c = Some j \<longleftrightarrow>
          j < length (registers s') \<and> c \<in> customers (registers s' ! j)"
    proof (cases "j = k")
      case jk: True
      show ?thesis
      proof (cases "c = cid")
        case True
        with jk k show ?thesis by (simp add: rm len at_k)
      next
        case False
        with jk inv[of c k] show ?thesis by (simp add: rm len at_k)
      qed
    next
      case jk: False
      show ?thesis
      proof (cases "c = cid")
        case True
        with jk elsewhere[OF jk] show ?thesis by (simp add: rm len off_k)
      next
        case False
        with jk inv[of c j] show ?thesis by (simp add: rm len off_k)
      qed
    qed
  qed
qed

lemma routed_checkoutCustomer:
  assumes "routed s" and "checkoutCustomer cid s = Returned v s'"
  shows "routed s'" and "register_map s' cid = None"
    and "\<forall>r\<in>set (registers s'). cid \<notin> customers r"
proof -
  from checkoutCustomer_Returned[OF assms(2)] obtain k r' where
    old: "register_map s cid = Some k" and k: "k < length (registers s)"
    and c: "checkoutCart cid (registers s ! k) = Returned () r'"
    and rs: "registers s' = (registers s)[k := r']"
    and rm: "register_map s' = (register_map s)(cid := None)" by blast
  have len: "length (registers s') = length (registers s)" by (simp add: rs)
  have at_k: "customers (registers s' ! k) = customers (registers s ! k) - {cid}"
    using k by (simp add: rs checkoutCart_effect(3)[OF c])
  have off_k: "customers (registers s' ! j) = customers (registers s ! j)" if "j \<noteq> k" for j
    using that by (simp add: rs)
  have inv: "register_map s c = Some j \<longleftrightarrow>
      j < length (registers s) \<and> c \<in> customers (registers s ! j)" for c j
    using assms(1) unfolding routed_def by blast
  have elsewhere: "\<not> (j < length (registers s) \<and> cid \<in> customers (registers s ! j))"
    if "j \<noteq> k" for j
  proof -
    from old that have "register_map s cid \<noteq> Some j" by auto
    with inv[of cid j] show ?thesis by blast
  qed
  show "register_map s' cid = None" by (simp add: rm)
  have absent: "cid \<notin> customers (registers s' ! j)" if "j < length (registers s')" for j
  proof (cases "j = k")
    case True
    then show ?thesis by (simp add: at_k)
  next
    case False
    with elsewhere[OF False] that show ?thesis by (simp add: off_k len)
  qed
  show "\<forall>r\<in>set (registers s'). cid \<notin> customers r"
  proof
    fix r assume "r \<in> set (registers s')"
    then obtain j where "j < length (registers s')" "r = registers s' ! j"
      by (auto simp: in_set_conv_nth)
    with absent show "cid \<notin> customers r" by simp
  qed
  show "routed s'"
    unfolding routed_def
  proof (intro allI)
    fix c j
    show "register_map s' c = Some j \<longleftrightarrow>
          j < length (registers s') \<and> c \<in> customers (registers s' ! j)"
    proof (cases "c = cid")
      case True
      with absent[of j] show ?thesis by (auto simp: rm)
    next
      case False
      show ?thesis
      proof (cases "j = k")
        case True
        with False inv[of c k] show ?thesis by (simp add: rm len at_k)
      next
        case jk: False
        with False inv[of c j] show ?thesis by (simp add: rm len off_k)
      qed
    qed
  qed
qed

lemma routed_perform:
  assumes "routed s" and "perform c s = Returned v s' \<or> perform c s = Raised e s'"
  shows "routed s'"
  using assms(2)
proof
  assume r: "perform c s = Returned v s'"
  show ?thesis
  proof (cases c)
    case (AssignItem cid item_id)
    with r have "assignItem cid item_id s = Returned v s'" by simp
    with assms(1) show ?thesis by (rule routed_assignItem)
  next
    case (CheckoutCustomer cid)
    with r have "checkoutCustomer cid s = Returned v s'" by simp
    with assms(1) show ?thesis by (rule routed_checkoutCustomer(1))
  next
    case GetLeastUtilizedRegister
    with perform_read_Returned[OF r] have "s' = s" by blast
    with assms(1) show ?thesis by simp
  next
    case GetAllRegisterState
    with perform_read_Returned[OF r] have "s' = s" by blast
    with assms(1) show ?thesis by simp
  qed
next
  assume "perform c s = Raised e s'"
  from perform_Raised_frame[OF this] have "routed s' \<longleftrightarrow> routed s"
    by (intro routed_cong)
  with assms(1) show ?thesis by simp
qed

lemma routed_run: "routed s \<Longrightarrow> run cs s = Some s' \<Longrightarrow> routed s'"
proof (induction cs arbitrary: s)
  case Nil
  then show ?case by simp
next
  case (Cons c cs)
  show ?case
  proof (cases "perform c s")
    case (Returned v s1)
    then have "routed s1" by (intro routed_perform[OF Cons.prems(1)] disjI1)
    with Cons.IH Cons.prems(2) Returned show ?thesis by simp
  next
    case (Raised e s1)
    then have "routed s1" by (intro routed_perform[OF Cons.prems(1)] disjI2)
    with Cons.IH Cons.prems(2) Raised show ?thesis by simp
  next
    case Blocked
    with Cons.prems(2) show ?thesis by simp
  qed
qed

lemma routed_Store_init: "routed (Store_init n)"
  unfolding routed_def
proof (intro allI)
  fix cid :: 'a and k
  have "\<not> (k < length (registers (Store_init n :: ('a, 'b) store)) \<and>
        cid \<in> customers (registers (Store_init n :: ('a, 'b) store) ! k))"
    by (auto simp: Store_init_def customers_def Register_init_def)
  moreover have "register_map (Store_init n :: ('a, 'b) store) cid = None"
    by (simp add: Store_init_def)
  ultimately show "register_map (Store_init n :: ('a, 'b) store) cid = Some k \<longleftrightarrow>
     k < length (registers (Store_init n :: ('a, 'b) store)) \<and>
        cid \<in> customers (registers (Store_init n :: ('a, 'b) store) ! k)" by simp
qed

text \<open>
  Claim C2. In every store reached from \<^verbatim>\<open>Store(n)\<close> by calls of the store's
  methods, \<open>register_map\<close> maps a customer to a register exactly when the customer is
  a key of that register's cart map. When \<^verbatim>\<open>checkoutCustomer(c)\<close> succeeds on such a
  store, \<open>c\<close> is afterwards absent from \<open>register_map\<close> and from the cart map of
  every register.
\<close>

theorem routing_invariant:
  assumes "run calls (Store_init n) = Some s"
  shows "(\<forall>cid k. register_map s cid = Some k \<longleftrightarrow>
            k < length (registers s) \<and> cid \<in> customers (registers s ! k)) \<and>
         (\<forall>cid v s'. checkoutCustomer cid s = Returned v s' \<longrightarrow>
            register_map s' cid = None \<and> (\<forall>r\<in>set (registers s'). cid \<notin> customers r))"
proof (intro conjI allI impI)
  from routed_Store_init assms have r: "routed s" by (rule routed_run)
  fix cid k
  from r show "register_map s cid = Some k \<longleftrightarrow>
            k < length (registers s) \<and> cid \<in> customers (registers s ! k)"
    unfolding routed_def by (elim allE)
next
  from routed_Store_init assms have r: "routed s" by (rule routed_run)
  fix cid v s'
  assume c: "checkoutCustomer cid s = Returned v s'"
  show "register_map s' cid = None" by (rule routed_checkoutCustomer(2)[OF r c])
  show "\<forall>r\<in>set (registers s'). cid \<notin> customers r"
    by (rule routed_checkoutCustomer(3)[OF r c])
qed

theorem routing_invariant_witness:
  "\<exists>s s'. run scenario (Store_init 2) = Some s \<and>
      checkoutCustomer 1 s = Returned () s' \<and>
      (\<forall>cid k. register_map s cid = Some k \<longleftrightarrow>
         k < length (registers s) \<and> cid \<in> customers (registers s ! k)) \<and>
      register_map s' 1 = None \<and> (\<forall>r\<in>set (registers s'). 1 \<notin> customers r)"
proof -
  from scenario_runs obtain s s' where s: "run scenario (Store_init 2) = Some s"
    and c: "checkoutCustomer 1 s = Returned () s'" by (elim exE conjE)
  note inv = routing_invariant[OF s]
  from inv have a: "\<forall>cid k. register_map s cid = Some k \<longleftrightarrow>
         k < length (registers s) \<and> cid \<in> customers (registers s ! k)" by (rule conjunct1)
  from inv have "\<forall>cid v s'. checkoutCustomer cid s = Returned v s' \<longrightarrow>
            register_map s' cid = None \<and> (\<forall>r\<in>set (registers s'). cid \<notin> customers r)"
    by (rule conjunct2)
  then have "checkoutCustomer 1 s = Returned () s' \<longrightarrow>
            register_map s' 1 = None \<and> (\<forall>r\<in>set (registers s'). 1 \<notin> customers r)"
    by (elim allE)
  with c have b: "register_map s' 1 = None \<and> (\<forall>r\<in>set (registers s'). 1 \<notin> customers r)"
    by (rule rev_mp)
  from s c a b show ?thesis by (intro exI[of _ s] exI[of _ s'] conjI) simp_all
qed

section \<open>Failures of checkout\<close>

text \<open>
  Claim C3. \<^verbatim>\<open>checkoutCustomer(c)\<close> raises "Attempted to checkout customer without a
  cart" exactly when \<open>c\<close> is not a key of \<open>register_map\<close>, and then the store is left
  as it was. When the register's \<^verbatim>\<open>checkoutCart\<close> raises, \<^verbatim>\<open>checkoutCustomer\<close>
  raises the same error and \<open>register_map\<close> still maps \<open>c\<close> to that register.
  Whatever the error, the routing table and every register's cart map are the ones of
  the store before the call. So the call, whether it returns or raises, keeps the routing
  invariant: it never leaves \<open>register_map\<close> pointing at a register without \<open>c\<close>'s
  cart when it did not before.
\<close>

theorem checkoutCustomer_failure:
  "((\<exists>s'. checkoutCustomer cid s = Raised CheckoutWithoutCart s') \<longleftrightarrow>
      register_map s cid = None) \<and>
   (register_map s cid = None \<longrightarrow> checkoutCustomer cid s = Raised CheckoutWithoutCart s) \<and>
   (\<forall>k e r'. register_map s cid = Some k \<and> k < length (registers s) \<and>
       checkoutCart cid (registers s ! k) = Raised e r' \<longrightarrow>
       (\<exists>s'. checkoutCustomer cid s = Raised e s' \<and> register_map s' = register_map s \<and>
             register_map s' cid = Some k)) \<and>
   (\<forall>e s'. checkoutCustomer cid s = Raised e s' \<longrightarrow>
       register_map s' = register_map s \<and>
       map customer_cart_map (registers s') = map customer_cart_map (registers s)) \<and>
   (\<forall>v e s'. routed s \<and>
       (checkoutCustomer cid s = Returned v s' \<or> checkoutCustomer cid s = Raised e s') \<longrightarrow>
       routed s')"
proof -
  have A: "(\<exists>s'. checkoutCustomer cid s = Raised CheckoutWithoutCart s') \<longleftrightarrow>
      register_map s cid = None"
  proof
    assume "\<exists>s'. checkoutCustomer cid s = Raised CheckoutWithoutCart s'"
    then obtain s' where "checkoutCustomer cid s = Raised CheckoutWithoutCart s'" ..
    from checkoutCustomer_Raised[OF this] show "register_map s cid = None"
      by (auto dest: checkoutCart_Raised(3))
  next
    assume "register_map s cid = None"
    then show "\<exists>s'. checkoutCustomer cid s = Raised CheckoutWithoutCart s'"
      by (simp add: checkoutCustomer_def)
  qed
  have B: "register_map s cid = None \<longrightarrow> checkoutCustomer cid s = Raised CheckoutWithoutCart s"
    by (simp add: checkoutCustomer_def)
  have C: "\<forall>k e r'. register_map s cid = Some k \<and> k < length (registers s) \<and>
       checkoutCart cid (registers s ! k) = Raised e r' \<longrightarrow>
       (\<exists>s'. checkoutCustomer cid s = Raised e s' \<and> register_map s' = register_map s \<and>
             register_map s' cid = Some k)"
    by (simp add: checkoutCustomer_def atRegister_def inStore_def)
  have D: "\<forall>e s'. checkoutCustomer cid s = Raised e s' \<longrightarrow>
       register_map s' = register_map s \<and>
       map customer_cart_map (registers s') = map customer_cart_map (registers s)"
  proof (intro allI impI)
    fix e s'
    assume "checkoutCustomer cid s = Raised e s'"
    from checkoutCustomer_Raised_frame[OF this]
    show "register_map s' = register_map s \<and>
       map customer_cart_map (registers s') = map customer_cart_map (registers s)" ..
  qed
  have E: "\<forall>v e s'. routed s \<and>
       (checkoutCustomer cid s = Returned v s' \<or> checkoutCustomer cid s = Raised e s') \<longrightarrow>
       routed s'"
  proof (intro allI impI)
    fix v e s'
    assume h: "routed s \<and>
       (checkoutCustomer cid s = Returned v s' \<or> checkoutCustomer cid s = Raised e s')"
    then have r: "routed s" ..
    from h have "checkoutCustomer cid s = Returned v s' \<or> checkoutCustomer cid s = Raised e s'" ..
    then show "routed s'"
    proof
      assume "checkoutCustomer cid s = Returned v s'"
      with r show ?thesis by (rule routed_checkoutCustomer(1))
    next
      assume "checkoutCustomer cid s = Raised e s'"
      from checkoutCustomer_Raised_frame[OF this] have "routed s' \<longleftrightarrow> routed s"
        by (intro routed_cong)
      with r show ?thesis by simp
    qed
  qed
  show ?thesis by (rule conjI[OF A conjI[OF B conjI[OF C conjI[OF D E]]]])
qed

lemma stale_checkoutCart:
  "checkoutCart 4 (registers stale_store ! 0) =
     Raised CartDoesNotExist ((registers stale_store ! 0)\<lparr>lock := True\<rparr>)"
  by (simp add: stale_store_def busy_store_def checkoutCart_eq)

theorem checkoutCustomer_failure_witness:
  "checkoutCustomer 9 busy_store = Raised CheckoutWithoutCart busy_store \<and>
   (\<exists>s'. checkoutCustomer 4 stale_store = Raised CartDoesNotExist s' \<and>
      register_map s' = register_map stale_store \<and> register_map s' 4 = Some 0 \<and>
      map customer_cart_map (registers s') = map customer_cart_map (registers stale_store)) \<and>
   (\<exists>s s'. run scenario (Store_init 2) = Some s \<and> routed s \<and>
      checkoutCustomer 1 s = Returned () s' \<and> routed s')"
proof -
  have a: "register_map busy_store 9 = None" by (simp add: busy_store_def)
  have b: "register_map stale_store 4 = Some 0 \<and> 0 < length (registers stale_store) \<and>
       checkoutCart 4 (registers stale_store ! 0) =
         Raised CartDoesNotExist ((registers stale_store ! 0)\<lparr>lock := True\<rparr>)"
    using stale_checkoutCart by (simp add: stale_store_def busy_store_def)
  note t9 = checkoutCustomer_failure[of 9 busy_store]
  from t9[THEN conjunct2, THEN conjunct1] a
  have 1: "checkoutCustomer 9 busy_store = Raised CheckoutWithoutCart busy_store" by (rule mp)
  note t4 = checkoutCustomer_failure[of 4 stale_store]
  from t4[THEN conjunct2, THEN conjunct2, THEN conjunct1] b
  obtain s' where s': "checkoutCustomer 4 stale_store = Raised CartDoesNotExist s'"
    "register_map s' = register_map stale_store" "register_map s' 4 = Some 0" by blast
  from t4[THEN conjunct2, THEN conjunct2, THEN conjunct2, THEN conjunct1] s'(1)
  have "map customer_cart_map (registers s') = map customer_cart_map (registers stale_store)"
    by blast
  with s' have 2: "\<exists>s'. checkoutCustomer 4 stale_store = Raised CartDoesNotExist s' \<and>
      register_map s' = register_map stale_store \<and> register_map s' 4 = Some 0 \<and>
      map customer_cart_map (registers s') = map customer_cart_map (registers stale_store)"
    by (intro exI[of _ s'] conjI)
  from scenario_runs obtain s s1 where s: "run scenario (Store_init 2) = Some s"
    and c: "checkoutCustomer 1 s = Returned () s1" by (elim exE conjE)
  from routed_Store_init s have r: "routed s" by (rule routed_run)
  from r c have "routed s \<and>
      (checkoutCustomer 1 s = Returned () s1 \<or> checkoutCustomer 1 s = Raised CartDoesNotExist s1)"
    by simp
  with checkoutCustomer_failure[of 1 s, THEN conjunct2, THEN conjunct2, THEN conjunct2,
      THEN conjunct2, THEN spec, THEN spec, THEN spec]
  have "routed s1" by (rule mp)
  with s r c have 3: "\<exists>s s'. run scenario (Store_init 2) = Some s \<and> routed s \<and>
      checkoutCustomer 1 s = Returned () s' \<and> routed s'"
    by (intro exI[of _ s] exI[of _ s1] conjI)
  from 1 2 3 show ?thesis by (intro conjI)
qed

section \<open>Conservation of items\<close>

lemma fold_add: "fold (\<lambda>c (t::nat). t + f c) xs a = a + sum_list (map f xs)"
  by (induction xs arbitrary: a) simp_all

lemma getTotalItems_sum:
  "getTotalItems r = sum_list (map (\<lambda>p. size_cart (snd p)) (customer_cart_map r))"
  by (simp add: getTotalItems_def fold_add comp_def)

lemma update_sum:
  "sum_list (map (\<lambda>p. f (snd p)) (AList.update k v al)) +
     (case map_of al k of Some v0 \<Rightarrow> f v0 | None \<Rightarrow> 0) =
   sum_list (map (\<lambda>p. f (snd p)) al) + (f v :: nat)"
  by (induction al) auto

lemma delete_sum:
  "distinct (map fst al) \<Longrightarrow>
   sum_list (map (\<lambda>p. f (snd p)) (AList.delete k al)) +
     (case map_of al k of Some v0 \<Rightarrow> f v0 | None \<Rightarrow> 0) =
   (sum_list (map (\<lambda>p. f (snd p)) al) :: nat)"
proof (induction al)
  case Nil
  then show ?case by simp
next
  case (Cons p al)
  show ?case
  proof (cases "fst p = k")
    case True
    with Cons.prems have "k \<notin> fst ` set al" by auto
    then have "AList.delete k al = al" by simp
    with True show ?thesis by (cases p) simp
  next
    case False
    with Cons show ?thesis by (cases p) auto
  qed
qed

lemma addItemToCart_total:
  assumes "addItemToCart cid item_id r = Returned v r'"
  shows "getTotalItems r' = Suc (getTotalItems r)"
proof -
  let ?c0 = "case map_of (customer_cart_map r) cid of Some c \<Rightarrow> c | None \<Rightarrow> Cart_init cid"
  from addItemToCart_Returned(2)[OF assms]
  have "customer_cart_map r' = AList.update cid (addItem item_id ?c0) (customer_cart_map r)"
    by simp
  then have "getTotalItems r' +
      (case map_of (customer_cart_map r) cid of Some c \<Rightarrow> size_cart c | None \<Rightarrow> 0) =
    getTotalItems r + size_cart (addItem item_id ?c0)"
    by (simp only: getTotalItems_sum update_sum)
  moreover have "(case map_of (customer_cart_map r) cid of Some c \<Rightarrow> size_cart c | None \<Rightarrow> 0)
      = size_cart ?c0"
    by (simp add: size_cart_def Cart_init_def split: option.split)
  moreover have "size_cart (addItem item_id ?c0) = Suc (size_cart ?c0)"
    by (simp add: size_cart_def addItem_def)
  ultimately show ?thesis by simp
qed

lemma checkoutCart_total:
  assumes "checkoutCart cid r = Returned v r'" and "distinct (map fst (customer_cart_map r))"
  shows "getTotalItems r' + length (cartItems cid r) = getTotalItems r"
proof -
  from checkoutCart_Returned(3)[OF assms(1)]
  have "customer_cart_map r' = AList.delete cid (customer_cart_map r)" by simp
  then have "getTotalItems r' +
      (case map_of (customer_cart_map r) cid of Some c \<Rightarrow> size_cart c | None \<Rightarrow> 0) =
    getTotalItems r"
    by (simp only: getTotalItems_sum delete_sum[OF assms(2)])
  moreover have "(case map_of (customer_cart_map r) cid of Some c \<Rightarrow> size_cart c | None \<Rightarrow> 0)
      = length (cartItems cid r)"
    by (simp add: size_cart_def cartItems_def split: option.split)
  ultimately show ?thesis by simp
qed

lemma sum_list_update_add:
  "k < length xs \<Longrightarrow>
   sum_list (map f (xs[k := y])) + f (xs ! k) = sum_list (map f xs) + (f y :: nat)"
proof (induction xs arbitrary: k)
  case Nil
  then show ?case by simp
next
  case (Cons x xs)
  then show ?case by (cases k) auto
qed

lemma assignItem_total:
  assumes "assignItem cid item_id s = Returned v s'"
  shows "totalItems s' = Suc (totalItems s)"
proof -
  from assignItem_Returned[OF assms] obtain k r' where k: "k < length (registers s)"
    and a: "addItemToCart cid item_id (registers s ! k) = Returned () r'"
    and rs: "registers s' = (registers s)[k := r']" by blast
  from sum_list_update_add[OF k, of getTotalItems r'] rs
  have "totalItems s' + getTotalItems (registers s ! k) = totalItems s + getTotalItems r'"
    by (simp add: totalItems_def)
  with addItemToCart_total[OF a] show ?thesis by simp
qed

lemma checkoutCustomer_total:
  assumes "checkoutCustomer cid s = Returned v s'" and "distinctKeys s"
  shows "totalItems s' + length (pending cid s) = totalItems s"
proof -
  from checkoutCustomer_Returned[OF assms(1)] obtain k r' where
    old: "register_map s cid = Some k" and k: "k < length (registers s)"
    and c: "checkoutCart cid (registers s ! k) = Returned () r'"
    and rs: "registers s' = (registers s)[k := r']" by blast
  from k assms(2) have "distinct (map fst (customer_cart_map (registers s ! k)))"
    by (simp add: distinctKeys_def)
  from checkoutCart_total[OF c this]
  have t: "getTotalItems r' + length (cartItems cid (registers s ! k)) = getTotalItems (registers s ! k)" .
  from old k have p: "pending cid s = cartItems cid (registers s ! k)"
    by (simp add: pending_def)
  from sum_list_update_add[OF k, of getTotalItems r'] rs
  have "totalItems s' + getTotalItems (registers s ! k) = totalItems s + getTotalItems r'"
    by (simp add: totalItems_def)
  with t p show ?thesis by simp
qed

lemma carts_cong:
  assumes "map customer_cart_map (registers s') = map customer_cart_map (registers s)"
  shows "totalItems s' = totalItems s" and "distinctKeys s' \<longleftrightarrow> distinctKeys s"
proof -
  have "map getTotalItems (registers s') = map (\<lambda>m. sum_list (map (\<lambda>p. size_cart (snd p)) m))
      (map customer_cart_map (registers s'))"
    by (simp add: getTotalItems_sum comp_def)
  also have "\<dots> = map getTotalItems (registers s)"
    by (simp add: assms getTotalItems_sum comp_def)
  finally show "totalItems s' = totalItems s" by (simp add: totalItems_def)
  from arg_cong[OF assms, of set]
  have img: "customer_cart_map ` set (registers s') = customer_cart_map ` set (registers s)"
    by simp
  have D: "distinctKeys t \<longleftrightarrow>
      (\<forall>m\<in>customer_cart_map ` set (registers t). distinct (map fst m))"
    for t :: "('a, 'b) store"
    by (simp add: distinctKeys_def)
  show "distinctKeys s' \<longleftrightarrow> distinctKeys s" by (simp only: D img)
qed

lemma distinctKeys_update:
  assumes "distinctKeys s" and "registers s' = (registers s)[k := r']"
    and "distinct (map fst (customer_cart_map r'))"
  shows "distinctKeys s'"
  unfolding distinctKeys_def
proof
  fix r assume "r \<in> set (registers s')"
  with assms(2) have "r \<in> set ((registers s)[k := r'])" by simp
  then have "r = r' \<or> r \<in> set (registers s)" using set_update_subset_insert by fastforce
  with assms(1,3) show "distinct (map fst (customer_cart_map r))"
    by (auto simp: distinctKeys_def)
qed

lemma distinctKeys_perform:
  assumes "distinctKeys s" and "perform c s = Returned v s' \<or> perform c s = Raised e s'"
  shows "distinctKeys s'"
  using assms(2)
proof
  assume r: "perform c s = Returned v s'"
  show ?thesis
  proof (cases c)
    case (AssignItem cid item_id)
    with r have "assignItem cid item_id s = Returned v s'" by simp
    from assignItem_Returned[OF this] obtain k r' where k: "k < length (registers s)"
      and a: "addItemToCart cid item_id (registers s ! k) = Returned () r'"
      and rs: "registers s' = (registers s)[k := r']" by blast
    from k assms(1) have "distinct (map fst (customer_cart_map (registers s ! k)))"
      by (simp add: distinctKeys_def)
    with addItemToCart_Returned(2)[OF a] have "distinct (map fst (customer_cart_map r'))"
      by (simp add: distinct_update)
    with assms(1) rs show ?thesis by (rule distinctKeys_update)
  next
    case (CheckoutCustomer cid)
    with r have "checkoutCustomer cid s = Returned v s'" by simp
    from checkoutCustomer_Returned[OF this] obtain k r' where k: "k < length (registers s)"
      and c: "checkoutCart cid (registers s ! k) = Returned () r'"
      and rs: "registers s' = (registers s)[k := r']" by blast
    from k assms(1) have "distinct (map fst (customer_cart_map (registers s ! k)))"
      by (simp add: distinctKeys_def)
    with checkoutCart_Returned(3)[OF c] have "distinct (map fst (customer_cart_map r'))"
      by (simp add: distinct_delete)
    with assms(1) rs show ?thesis by (rule distinctKeys_update)
  next
    case GetLeastUtilizedRegister
    with perform_read_Returned[OF r] have "s' = s" by blast
    with assms(1) show ?thesis by simp
  next
    case GetAllRegisterState
    with perform_read_Returned[OF r] have "s' = s" by blast
    with assms(1) show ?thesis by simp
  qed
next
  assume "perform c s = Raised e s'"
  from carts_cong(2)[OF perform_Raised_frame(2)[OF this]] assms(1) show ?thesis by simp
qed

lemma conservation:
  "distinctKeys s \<Longrightarrow> run cs s = Some s' \<Longrightarrow>
   totalItems s' + removed cs s = totalItems s + assigned cs s"
proof (induction cs arbitrary: s)
  case Nil
  then show ?case by simp
next
  case (Cons c cs)
  show ?case
  proof (cases "perform c s")
    case (Returned v s1)
    then have d: "distinctKeys s1" by (intro distinctKeys_perform[OF Cons.prems(1)] disjI1)
    from Cons.prems(2) Returned have "run cs s1 = Some s'" by simp
    from Cons.IH[OF d this]
    have ih: "totalItems s' + removed cs s1 = totalItems s1 + assigned cs s1" .
    show ?thesis
    proof (cases c)
      case (AssignItem cid item_id)
      with Returned have "assignItem cid item_id s = Returned v s1" by simp
      from assignItem_total[OF this] ih Returned AssignItem show ?thesis by simp
    next
      case (CheckoutCustomer cid)
      with Returned have "checkoutCustomer cid s = Returned v s1" by simp
      from checkoutCustomer_total[OF this Cons.prems(1)] ih Returned CheckoutCustomer
      show ?thesis by simp
    next
      case GetLeastUtilizedRegister
      with perform_read_Returned[OF Returned] have "s1 = s" by blast
      with ih Returned GetLeastUtilizedRegister show ?thesis by simp
    next
      case GetAllRegisterState
      with perform_read_Returned[OF Returned] have "s1 = s" by blast
      with ih Returned GetAllRegisterState show ?thesis by simp
    qed
  next
    case (Raised e s1)
    then have d: "distinctKeys s1" by (intro distinctKeys_perform[OF Cons.prems(1)] disjI2)
    from Cons.prems(2) Raised have "run cs s1 = Some s'" by simp
    from Cons.IH[OF d this] carts_cong(1)[OF perform_Raised_frame(2)[OF Raised]] Raised
    show ?thesis by simp
  next
    case Blocked
    with Cons.prems(2) show ?thesis by simp
  qed
qed

lemma Store_init_fresh:
  "distinctKeys (Store_init n)" "totalItems (Store_init n) = 0"
proof -
  have "\<forall>r\<in>set (registers (Store_init n :: ('a, 'b) store)). customer_cart_map r = []"
    by (auto simp: Store_init_def Register_init_def)
  then show "distinctKeys (Store_init n :: ('a, 'b) store)"
    by (simp add: distinctKeys_def)
  have "\<forall>r\<in>set (registers (Store_init n :: ('c, 'd) store)). getTotalItems r = 0"
    by (auto simp: Store_init_def Register_init_def getTotalItems_def)
  then show "totalItems (Store_init n :: ('c, 'd) store) = 0"
    by (simp add: totalItems_def)
qed

text \<open>
  Claim C7. After any sequence of calls on \<^verbatim>\<open>Store(n)\<close>, the sum over all registers
  of \<^verbatim>\<open>getTotalItems()\<close> is the number of \<^verbatim>\<open>assignItem\<close> calls that returned minus
  the number of items removed by the \<^verbatim>\<open>checkoutCustomer\<close> calls that returned, where
  each such checkout counts the items that were in the customer's cart when it was called.
\<close>

theorem item_conservation:
  assumes "run calls (Store_init n) = Some s"
  shows "totalItems s + removed calls (Store_init n) = assigned calls (Store_init n) \<and>
         totalItems s = assigned calls (Store_init n) - removed calls (Store_init n)"
proof -
  from conservation[OF Store_init_fresh(1) assms]
  have "totalItems s + removed calls (Store_init n) = assigned calls (Store_init n)"
    by (simp add: Store_init_fresh(2))
  then show ?thesis by simp
qed

lemma scenario_checkout_runs:
  "\<exists>s. run (scenario @ [CheckoutCustomer 1]) (Store_init 2) = Some s"
  by (simp add: scenario_def eval_defs)

lemma scenario_checkout_tally:
  "assigned (scenario @ [CheckoutCustomer 1]) (Store_init 2) = 3"
  "removed (scenario @ [CheckoutCustomer 1]) (Store_init 2) = 2"
  by (simp_all add: scenario_def eval_defs pending_def cartItems_def)

theorem item_conservation_witness:
  "\<exists>s. run (scenario @ [CheckoutCustomer 1]) (Store_init 2) = Some s \<and>
       assigned (scenario @ [CheckoutCustomer 1]) (Store_init 2) = 3 \<and>
       removed (scenario @ [CheckoutCustomer 1]) (Store_init 2) = 2 \<and>
       totalItems s = 1"
proof -
  from scenario_checkout_runs obtain s where
    s: "run (scenario @ [CheckoutCustomer 1]) (Store_init 2) = Some s" ..
  from item_conservation[OF s]
  have "totalItems s = assigned (scenario @ [CheckoutCustomer 1]) (Store_init 2) -
      removed (scenario @ [CheckoutCustomer 1]) (Store_init 2)"
    by (rule conjunct2)
  then have "totalItems s = 3 - 2" by (simp only: scenario_checkout_tally)
  then have "totalItems s = 1" by simp
  with s scenario_checkout_tally show ?thesis by (intro exI[of _ s] conjI)
qed

section \<open>Sticky routing\<close>

lemma cartItems_cong:
  "customer_cart_map r' = customer_cart_map r \<Longrightarrow> cartItems cid r' = cartItems cid r"
  by (simp add: cartItems_def)

lemma cartItems_other:
  "map_of (customer_cart_map r') cid = map_of (customer_cart_map r) cid \<Longrightarrow>
   cartItems cid r' = cartItems cid r"
  by (simp add: cartItems_def)

lemma carts_nth:
  assumes "map customer_cart_map (registers s') = map customer_cart_map (registers s)"
  shows "length (registers s') = length (registers s)"
    and "j < length (registers s) \<Longrightarrow>
         customer_cart_map (registers s' ! j) = customer_cart_map (registers s ! j)"
proof -
  from assms show len: "length (registers s') = length (registers s)"
    by (rule map_eq_imp_length_eq)
  assume j: "j < length (registers s)"
  with len have "customer_cart_map (registers s' ! j) = map customer_cart_map (registers s') ! j"
    by simp
  also from j have "\<dots> = customer_cart_map (registers s ! j)" by (simp add: assms)
  finally show "customer_cart_map (registers s' ! j) = customer_cart_map (registers s ! j)" .
qed

lemma sticky_step:
  assumes rm: "register_map s cid = Some k" and k: "k < length (registers s)"
    and nc: "c \<noteq> CheckoutCustomer cid"
    and p: "perform c s = Returned v s1 \<or> perform c s = Raised e s1"
  shows "register_map s1 cid = Some k \<and> length (registers s1) = length (registers s) \<and>
         (\<forall>j<length (registers s).
            cartItems cid (registers s1 ! j) =
            cartItems cid (registers s ! j) @ (if j = k then itemsAssigned cid [c] else []))"
  using p
proof
  assume r: "perform c s = Returned v s1"
  show ?thesis
  proof (cases c)
    case (AssignItem c' item_id)
    with r have "assignItem c' item_id s = Returned v s1" by simp
    from assignItem_Returned[OF this] obtain k' r' where k': "k' < length (registers s)"
      and a: "addItemToCart c' item_id (registers s ! k') = Returned () r'"
      and rs: "registers s1 = (registers s)[k' := r']"
      and rm1: "register_map s1 = (register_map s)(c' \<mapsto> k')"
      and old: "register_map s c' = Some k' \<or> register_map s c' = None" by blast
    show ?thesis
    proof (cases "c' = cid")
      case True
      with old rm have kk: "k' = k" by simp
      have "cartItems cid (registers s1 ! j) =
            cartItems cid (registers s ! j) @ (if j = k then [item_id] else [])"
        if "j < length (registers s)" for j
      proof (cases "j = k")
        case jk: True
        with k kk rs have "registers s1 ! j = r'" by simp
        with addItemToCart_effect(4)[OF a] True kk jk show ?thesis by simp
      next
        case False
        with kk rs show ?thesis by simp
      qed
      with True kk rm1 rs AssignItem show ?thesis by simp
    next
      case False
      have "cartItems cid (registers s1 ! j) = cartItems cid (registers s ! j)"
        if "j < length (registers s)" for j
      proof (cases "j = k'")
        case True
        with k' rs have "registers s1 ! j = r'" by simp
        moreover from addItemToCart_effect(5)[OF a, of cid] False
        have "cartItems cid r' = cartItems cid (registers s ! k')"
          by (intro cartItems_other) simp
        ultimately show ?thesis using True by simp
      next
        case False
        with rs show ?thesis by simp
      qed
      with False rm rm1 rs AssignItem show ?thesis by simp
    qed
  next
    case (CheckoutCustomer c')
    with nc have ne: "c' \<noteq> cid" by simp
    from CheckoutCustomer r have "checkoutCustomer c' s = Returned v s1" by simp
    from checkoutCustomer_Returned[OF this] obtain k' r' where k': "k' < length (registers s)"
      and a: "checkoutCart c' (registers s ! k') = Returned () r'"
      and rs: "registers s1 = (registers s)[k' := r']"
      and rm1: "register_map s1 = (register_map s)(c' := None)" by blast
    have "cartItems cid (registers s1 ! j) = cartItems cid (registers s ! j)"
      if "j < length (registers s)" for j
    proof (cases "j = k'")
      case True
      with k' rs have "registers s1 ! j = r'" by simp
      moreover from checkoutCart_effect(5)[OF a, of cid] ne
      have "cartItems cid r' = cartItems cid (registers s ! k')"
        by (intro cartItems_other) simp
      ultimately show ?thesis using True by simp
    next
      case False
      with rs show ?thesis by simp
    qed
    with ne rm rm1 rs CheckoutCustomer show ?thesis by simp
  next
    case GetLeastUtilizedRegister
    with perform_read_Returned[OF r] have "s1 = s" by blast
    with rm GetLeastUtilizedRegister show ?thesis by simp
  next
    case GetAllRegisterState
    with perform_read_Returned[OF r] have "s1 = s" by blast
    with rm GetAllRegisterState show ?thesis by simp
  qed
next
  assume r: "perform c s = Raised e s1"
  note fr = perform_Raised_frame[OF r]
  have "cartItems cid (registers s1 ! j) = cartItems cid (registers s ! j)"
    if "j < length (registers s)" for j
    using carts_nth(2)[OF fr(2) that] by (rule cartItems_cong)
  moreover have "itemsAssigned cid [c] = []"
  proof (cases c)
    case (AssignItem c' item_id)
    with r have "assignItem c' item_id s = Raised e s1" by simp
    from assignItem_Raised[OF this] rm k have "c' \<noteq> cid" by auto
    with AssignItem show ?thesis by simp
  qed simp_all
  ultimately show ?thesis using rm fr(1) carts_nth(1)[OF fr(2)] by simp
qed

lemma sticky_run:
  assumes "register_map s cid = Some k" and "k < length (registers s)"
    and "CheckoutCustomer cid \<notin> set cs" and "run cs s = Some s'"
  shows "register_map s' cid = Some k \<and> length (registers s') = length (registers s) \<and>
         (\<forall>j<length (registers s).
            cartItems cid (registers s' ! j) =
            cartItems cid (registers s ! j) @ (if j = k then itemsAssigned cid cs else []))"
  using assms
proof (induction cs arbitrary: s)
  case Nil
  then show ?case by simp
next
  case (Cons c cs)
  from Cons.prems(3) have nc: "c \<noteq> CheckoutCustomer cid"
    and ncs: "CheckoutCustomer cid \<notin> set cs" by auto
  from Cons.prems(4) obtain v e s1 where
    p: "perform c s = Returned v s1 \<or> perform c s = Raised e s1"
    and rest: "run cs s1 = Some s'"
    by (cases "perform c s") auto
  from sticky_step[OF Cons.prems(1,2) nc p]
  have rm1: "register_map s1 cid = Some k" and len1: "length (registers s1) = length (registers s)"
    and it1: "\<forall>j<length (registers s).
            cartItems cid (registers s1 ! j) =
            cartItems cid (registers s ! j) @ (if j = k then itemsAssigned cid [c] else [])"
    by simp_all
  from Cons.prems(2) len1 have k1: "k < length (registers s1)" by simp
  from Cons.IH[OF rm1 k1 ncs rest]
  have rm': "register_map s' cid = Some k" and len': "length (registers s') = length (registers s1)"
    and it': "\<forall>j<length (registers s1).
            cartItems cid (registers s' ! j) =
            cartItems cid (registers s1 ! j) @ (if j = k then itemsAssigned cid cs else [])"
    by simp_all
  have split: "itemsAssigned cid (c # cs) = itemsAssigned cid [c] @ itemsAssigned cid cs"
    by (cases c) simp_all
  have "cartItems cid (registers s' ! j) =
        cartItems cid (registers s ! j) @ (if j = k then itemsAssigned cid (c # cs) else [])"
    if "j < length (registers s)" for j
  proof -
    from that it1 have a: "cartItems cid (registers s1 ! j) =
            cartItems cid (registers s ! j) @ (if j = k then itemsAssigned cid [c] else [])"
      by blast
    from that len1 it' have b: "cartItems cid (registers s' ! j) =
            cartItems cid (registers s1 ! j) @ (if j = k then itemsAssigned cid cs else [])"
      by simp
    show ?thesis unfolding b a split by simp
  qed
  with rm' len' len1 show ?case by simp
qed

lemma first_assign_items:
  assumes none: "register_map s cid = None" and ret: "assignItem cid item_id s = Returned v s1"
  shows "\<exists>k<length (registers s1).
           getLeastUtilizedRegister s = Returned k s \<and> register_map s1 cid = Some k \<and>
           length (registers s1) = length (registers s) \<and>
           (\<forall>j<length (registers s).
              cartItems cid (registers s1 ! j) =
              cartItems cid (registers s ! j) @ (if j = k then [item_id] else []))"
proof -
  from assignItem_Returned[OF ret] none obtain k r' where k: "k < length (registers s)"
    and a: "addItemToCart cid item_id (registers s ! k) = Returned () r'"
    and rs: "registers s1 = (registers s)[k := r']"
    and rm: "register_map s1 = (register_map s)(cid \<mapsto> k)"
    and g: "getLeastUtilizedRegister s = Returned k s" by auto
  have len: "length (registers s1) = length (registers s)" by (simp add: rs)
  have items: "cartItems cid (registers s1 ! j) =
      cartItems cid (registers s ! j) @ (if j = k then [item_id] else [])"
    if "j < length (registers s)" for j
  proof (cases "j = k")
    case True
    with k rs have "registers s1 ! j = r'" by simp
    with addItemToCart_effect(4)[OF a] True show ?thesis by simp
  next
    case False
    with rs show ?thesis by simp
  qed
  from k len have k1: "k < length (registers s1)" by simp
  have rm1: "register_map s1 cid = Some k" by (simp add: rm)
  from items have all: "\<forall>j<length (registers s).
      cartItems cid (registers s1 ! j) =
      cartItems cid (registers s ! j) @ (if j = k then [item_id] else [])" by blast
  from k1 g rm1 len all show ?thesis by (intro exI[of _ k] conjI)
qed

lemma unrouted_no_items:
  assumes "routed s" and "register_map s cid = None" and "j < length (registers s)"
  shows "cartItems cid (registers s ! j) = []"
proof -
  from assms have "cid \<notin> customers (registers s ! j)"
    unfolding routed_def by (metis option.distinct(1))
  then have "map_of (customer_cart_map (registers s ! j)) cid = None"
    by (simp add: customers_def map_of_eq_None_iff)
  then show ?thesis by (simp add: cartItems_def)
qed

text \<open>
  Claim C5 (sticky routing). The first \<^verbatim>\<open>assignItem\<close> for a customer that is not in
  \<open>register_map\<close> takes the register that \<^verbatim>\<open>getLeastUtilizedRegister\<close> returns, adds
  the item to the customer's cart at that register and at no other, and records the
  register. For a customer that is in \<open>register_map\<close>, \<^verbatim>\<open>assignItem\<close> is the call of
  \<^verbatim>\<open>addItemToCart\<close> on the recorded register, with no scan. Through any sequence of
  calls without a \<^verbatim>\<open>checkoutCustomer\<close> of that customer (calls for other customers
  included), the recorded register stays the same, the customer's items are appended to
  the cart at that register in the order of the calls, and no other register gets an item
  of the customer. So from the first \<^verbatim>\<open>assignItem\<close> of a new customer on, every item of
  the customer, the first one included, is in the cart at the one register the scan
  selected; and when the routing invariant holds the customer had no item anywhere before.
\<close>

theorem sticky_routing:
  "(register_map s cid = None \<and> assignItem cid item_id s = Returned v s1 \<longrightarrow>
      (\<exists>k<length (registers s1).
         getLeastUtilizedRegister s = Returned k s \<and> register_map s1 cid = Some k \<and>
         length (registers s1) = length (registers s) \<and>
         (\<forall>j<length (registers s).
            cartItems cid (registers s1 ! j) =
            cartItems cid (registers s ! j) @ (if j = k then [item_id] else [])))) \<and>
   (register_map s cid = Some k \<longrightarrow>
      assignItem cid item_id s = atRegister k (addItemToCart cid item_id) s) \<and>
   (register_map s cid = Some k \<and> k < length (registers s) \<and>
    CheckoutCustomer cid \<notin> set calls \<and> run calls s = Some s' \<longrightarrow>
      register_map s' cid = Some k \<and> length (registers s') = length (registers s) \<and>
      (\<forall>j<length (registers s).
         cartItems cid (registers s' ! j) =
         cartItems cid (registers s ! j) @ (if j = k then itemsAssigned cid calls else []))) \<and>
   (register_map s cid = None \<and> assignItem cid item_id s = Returned v s1 \<and>
    CheckoutCustomer cid \<notin> set calls \<and> run calls s1 = Some s' \<longrightarrow>
      (\<exists>k<length (registers s).
         getLeastUtilizedRegister s = Returned k s \<and> register_map s' cid = Some k \<and>
         length (registers s') = length (registers s) \<and>
         (\<forall>j<length (registers s).
            cartItems cid (registers s' ! j) =
            cartItems cid (registers s ! j) @
              (if j = k then item_id # itemsAssigned cid calls else [])))) \<and>
   (routed s \<and> register_map s cid = None \<longrightarrow>
      (\<forall>j<length (registers s). cartItems cid (registers s ! j) = []))"
proof -
  have A: "register_map s cid = None \<and> assignItem cid item_id s = Returned v s1 \<longrightarrow>
      (\<exists>k<length (registers s1).
         getLeastUtilizedRegister s = Returned k s \<and> register_map s1 cid = Some k \<and>
         length (registers s1) = length (registers s) \<and>
         (\<forall>j<length (registers s).
            cartItems cid (registers s1 ! j) =
            cartItems cid (registers s ! j) @ (if j = k then [item_id] else [])))"
  proof
    assume "register_map s cid = None \<and> assignItem cid item_id s = Returned v s1"
    then have none: "register_map s cid = None"
      and ret: "assignItem cid item_id s = Returned v s1" by simp_all
    show "\<exists>k<length (registers s1).
         getLeastUtilizedRegister s = Returned k s \<and> register_map s1 cid = Some k \<and>
         length (registers s1) = length (registers s) \<and>
         (\<forall>j<length (registers s).
            cartItems cid (registers s1 ! j) =
            cartItems cid (registers s ! j) @ (if j = k then [item_id] else []))"
      by (rule first_assign_items[OF none ret])
  qed
  have B: "register_map s cid = Some k \<longrightarrow>
      assignItem cid item_id s = atRegister k (addItemToCart cid item_id) s"
    by (simp add: assignItem_def)
  have C: "register_map s cid = Some k \<and> k < length (registers s) \<and>
    CheckoutCustomer cid \<notin> set calls \<and> run calls s = Some s' \<longrightarrow>
      register_map s' cid = Some k \<and> length (registers s') = length (registers s) \<and>
      (\<forall>j<length (registers s).
         cartItems cid (registers s' ! j) =
         cartItems cid (registers s ! j) @ (if j = k then itemsAssigned cid calls else []))"
  proof
    assume "register_map s cid = Some k \<and> k < length (registers s) \<and>
      CheckoutCustomer cid \<notin> set calls \<and> run calls s = Some s'"
    then have h: "register_map s cid = Some k" "k < length (registers s)"
      "CheckoutCustomer cid \<notin> set calls" "run calls s = Some s'" by simp_all
    show "register_map s' cid = Some k \<and> length (registers s') = length (registers s) \<and>
      (\<forall>j<length (registers s).
         cartItems cid (registers s' ! j) =
         cartItems cid (registers s ! j) @ (if j = k then itemsAssigned cid calls else []))"
      by (rule sticky_run[OF h])
  qed
  have D: "register_map s cid = None \<and> assignItem cid item_id s = Returned v s1 \<and>
    CheckoutCustomer cid \<notin> set calls \<and> run calls s1 = Some s' \<longrightarrow>
      (\<exists>k<length (registers s).
         getLeastUtilizedRegister s = Returned k s \<and> register_map s' cid = Some k \<and>
         length (registers s') = length (registers s) \<and>
         (\<forall>j<length (registers s).
            cartItems cid (registers s' ! j) =
            cartItems cid (registers s ! j) @
              (if j = k then item_id # itemsAssigned cid calls else [])))"
  proof
    assume "register_map s cid = None \<and> assignItem cid item_id s = Returned v s1 \<and>
      CheckoutCustomer cid \<notin> set calls \<and> run calls s1 = Some s'"
    then have none: "register_map s cid = None"
      and ret: "assignItem cid item_id s = Returned v s1"
      and nc: "CheckoutCustomer cid \<notin> set calls" and r: "run calls s1 = Some s'" by simp_all
    from first_assign_items[OF none ret] obtain m where m1: "m < length (registers s1)"
      and g: "getLeastUtilizedRegister s = Returned m s"
      and rm1: "register_map s1 cid = Some m"
      and len1: "length (registers s1) = length (registers s)"
      and it1: "\<forall>j<length (registers s).
            cartItems cid (registers s1 ! j) =
            cartItems cid (registers s ! j) @ (if j = m then [item_id] else [])"
      by (elim exE conjE)
    from sticky_run[OF rm1 m1 nc r]
    have rm': "register_map s' cid = Some m"
      and len': "length (registers s') = length (registers s1)"
      and it': "\<forall>j<length (registers s1).
            cartItems cid (registers s' ! j) =
            cartItems cid (registers s1 ! j) @ (if j = m then itemsAssigned cid calls else [])"
      by simp_all
    have items: "cartItems cid (registers s' ! j) =
        cartItems cid (registers s ! j) @
          (if j = m then item_id # itemsAssigned cid calls else [])"
      if j: "j < length (registers s)" for j
    proof -
      from j it1 have a: "cartItems cid (registers s1 ! j) =
          cartItems cid (registers s ! j) @ (if j = m then [item_id] else [])" by blast
      from j len1 it' have b: "cartItems cid (registers s' ! j) =
          cartItems cid (registers s1 ! j) @ (if j = m then itemsAssigned cid calls else [])"
        by simp
      show ?thesis unfolding b a by simp
    qed
    then have all: "\<forall>j<length (registers s).
        cartItems cid (registers s' ! j) =
        cartItems cid (registers s ! j) @
          (if j = m then item_id # itemsAssigned cid calls else [])" by blast
    from m1 len1 have m: "m < length (registers s)" by simp
    from len' len1 have len: "length (registers s') = length (registers s)" by simp
    from m g rm' len all
    show "\<exists>k<length (registers s).
         getLeastUtilizedRegister s = Returned k s \<and> register_map s' cid = Some k \<and>
         length (registers s') = length (registers s) \<and>
         (\<forall>j<length (registers s).
            cartItems cid (registers s' ! j) =
            cartItems cid (registers s ! j) @
              (if j = k then item_id # itemsAssigned cid calls else []))"
      by (intro exI[of _ m] conjI)
  qed
  have E: "routed s \<and> register_map s cid = None \<longrightarrow>
      (\<forall>j<length (registers s). cartItems cid (registers s ! j) = [])"
  proof (intro impI allI)
    fix j
    assume h: "routed s \<and> register_map s cid = None" and j: "j < length (registers s)"
    from h have "routed s" "register_map s cid = None" by simp_all
    then show "cartItems cid (registers s ! j) = []" using j by (rule unrouted_no_items)
  qed
  show ?thesis by (rule conjI[OF A conjI[OF B conjI[OF C conjI[OF D E]]]])
qed

lemma first_assign_runs:
  "\<exists>s1 s'. assignItem 1 10 (Store_init 2 :: (nat, nat) store) = Returned () s1 \<and>
      register_map s1 1 = Some 0 \<and> length (registers s1) = 2 \<and>
      cartItems 1 (registers s1 ! 0) = [10] \<and> cartItems 1 (registers s1 ! 1) = [] \<and>
      run [AssignItem 2 20, AssignItem 1 11] s1 = Some s'"
  by (simp add: eval_defs cartItems_def)

theorem sticky_routing_witness:
  "\<exists>s1 s'. assignItem 1 10 (Store_init 2 :: (nat, nat) store) = Returned () s1 \<and>
      getLeastUtilizedRegister (Store_init 2 :: (nat, nat) store) = Returned 0 (Store_init 2) \<and>
      register_map s1 1 = Some 0 \<and>
      cartItems 1 (registers s1 ! 0) = [10] \<and> cartItems 1 (registers s1 ! 1) = [] \<and>
      run [AssignItem 2 20, AssignItem 1 11] s1 = Some s' \<and>
      register_map s' 1 = Some 0 \<and>
      cartItems 1 (registers s' ! 0) = [10, 11] \<and> cartItems 1 (registers s' ! 1) = []"
proof -
  let ?init = "Store_init 2 :: (nat, nat) store"
  let ?calls = "[AssignItem 2 20, AssignItem 1 11] :: (nat, nat) call list"
  from first_assign_runs obtain s1 s' where a: "assignItem 1 10 ?init = Returned () s1"
    and rm1: "register_map s1 1 = Some 0" and len: "length (registers s1) = 2"
    and r: "run ?calls s1 = Some s'" by (elim exE conjE)
  have none: "register_map ?init 1 = None" by (simp add: Store_init_def)
  have len0: "length (registers ?init) = 2" by (simp add: Store_init_def)
  have nc: "CheckoutCustomer 1 \<notin> set ?calls" by simp
  note sr = sticky_routing[of ?init 1 10 "()" s1 0 ?calls s']
  from routed_Store_init none have "routed ?init \<and> register_map ?init 1 = None" ..
  with sr[THEN conjunct2, THEN conjunct2, THEN conjunct2, THEN conjunct2]
  have "\<forall>j<length (registers ?init). cartItems 1 (registers ?init ! j) = []" by (rule mp)
  with len0 have e0: "cartItems 1 (registers ?init ! 0) = []"
    and e1: "cartItems 1 (registers ?init ! 1) = []" by simp_all
  from none a have "register_map ?init 1 = None \<and> assignItem 1 10 ?init = Returned () s1" ..
  with sr[THEN conjunct1]
  have "\<exists>k<length (registers s1).
         getLeastUtilizedRegister ?init = Returned k ?init \<and> register_map s1 1 = Some k \<and>
         length (registers s1) = length (registers ?init) \<and>
         (\<forall>j<length (registers ?init).
            cartItems 1 (registers s1 ! j) =
            cartItems 1 (registers ?init ! j) @ (if j = k then [10] else []))"
    by (rule mp)
  then obtain k where g0: "getLeastUtilizedRegister ?init = Returned k ?init"
    and rk: "register_map s1 1 = Some k"
    and f: "\<forall>j<length (registers ?init).
            cartItems 1 (registers s1 ! j) =
            cartItems 1 (registers ?init ! j) @ (if j = k then [10] else [])"
    by (elim exE conjE)
  from rk rm1 have k0: "k = 0" by simp
  with g0 have g: "getLeastUtilizedRegister ?init = Returned 0 ?init" by simp
  from f len0 k0 e0 have c0: "cartItems 1 (registers s1 ! 0) = [10]" by simp
  from f len0 k0 e1 have c1: "cartItems 1 (registers s1 ! 1) = []" by simp
  from none a nc r have "register_map ?init 1 = None \<and> assignItem 1 10 ?init = Returned () s1 \<and>
      CheckoutCustomer 1 \<notin> set ?calls \<and> run ?calls s1 = Some s'" by (intro conjI)
  with sr[THEN conjunct2, THEN conjunct2, THEN conjunct2, THEN conjunct1]
  have "\<exists>k<length (registers ?init).
         getLeastUtilizedRegister ?init = Returned k ?init \<and> register_map s' 1 = Some k \<and>
         length (registers s') = length (registers ?init) \<and>
         (\<forall>j<length (registers ?init).
            cartItems 1 (registers s' ! j) =
            cartItems 1 (registers ?init ! j) @
              (if j = k then 10 # itemsAssigned 1 ?calls else []))"
    by (rule mp)
  then obtain m where gm: "getLeastUtilizedRegister ?init = Returned m ?init"
    and rm': "register_map s' 1 = Some m"
    and it: "\<forall>j<length (registers ?init).
            cartItems 1 (registers s' ! j) =
            cartItems 1 (registers ?init ! j) @
              (if j = m then 10 # itemsAssigned 1 ?calls else [])"
    by (elim exE conjE)
  from gm g have m0: "m = 0" by simp
  from it len0 m0 e0 have i0: "cartItems 1 (registers s' ! 0) = [10, 11]" by simp
  from it len0 m0 e1 have i1: "cartItems 1 (registers s' ! 1) = []" by simp
  from rm' m0 have rm0: "register_map s' 1 = Some 0" by simp
  from a g rm1 c0 c1 r rm0 i0 i1 show ?thesis by (intro exI[of _ s1] exI[of _ s'] conjI)
qed

section \<open>The visible state of the registers\<close>

lemma run_invariant:
  assumes "P s"
    and "\<And>c t v e t'. P t \<Longrightarrow> perform c t = Returned v t' \<or> perform c t = Raised e t' \<Longrightarrow> P t'"
    and "run cs s = Some s'"
  shows "P s'"
  using assms(1,3)
proof (induction cs arbitrary: s)
  case Nil
  then show ?case by simp
next
  case (Cons c cs)
  from Cons.prems(2) obtain v e s1 where
    p: "perform c s = Returned v s1 \<or> perform c s = Raised e s1"
    and rest: "run cs s1 = Some s'"
    by (cases "perform c s") auto
  from assms(2)[OF Cons.prems(1) p] have "P s1" .
  from Cons.IH[OF this rest] show ?case .
qed

lemma ids_update:
  "k < length rs \<Longrightarrow> register_id r' = register_id (rs ! k) \<Longrightarrow>
   map register_id (rs[k := r']) = map register_id rs"
  by (rule map_list_update_same)

lemma perform_ids:
  assumes "perform c s = Returned v s' \<or> perform c s = Raised e s'"
  shows "map register_id (registers s') = map register_id (registers s)"
  using assms
proof
  assume r: "perform c s = Returned v s'"
  show ?thesis
  proof (cases c)
    case (AssignItem cid item_id)
    with r have "assignItem cid item_id s = Returned v s'" by simp
    from assignItem_Returned[OF this] obtain k r' where k: "k < length (registers s)"
      and a: "addItemToCart cid item_id (registers s ! k) = Returned () r'"
      and rs: "registers s' = (registers s)[k := r']" by blast
    from ids_update[OF k addItemToCart_effect(2)[OF a]] rs show ?thesis by simp
  next
    case (CheckoutCustomer cid)
    with r have "checkoutCustomer cid s = Returned v s'" by simp
    from checkoutCustomer_Returned[OF this] obtain k r' where k: "k < length (registers s)"
      and a: "checkoutCart cid (registers s ! k) = Returned () r'"
      and rs: "registers s' = (registers s)[k := r']" by blast
    from ids_update[OF k checkoutCart_effect(2)[OF a]] rs show ?thesis by simp
  next
    case GetLeastUtilizedRegister
    with perform_read_Returned[OF r] have "s' = s" by blast
    then show ?thesis by simp
  next
    case GetAllRegisterState
    with perform_read_Returned[OF r] have "s' = s" by blast
    then show ?thesis by simp
  qed
next
  assume r: "perform c s = Raised e s'"
  have locked: "map register_id (map (\<lambda>r. r\<lparr>lock := True\<rparr>) rs) = map register_id rs"
    for rs :: "('a, 'b) register list"
    by (simp add: comp_def)
  show ?thesis
  proof (cases c)
    case (AssignItem cid item_id)
    with r have "assignItem cid item_id s = Raised e s'" by simp
    from assignItem_Raised[OF this] show ?thesis
      by (auto dest!: getLeastUtilizedRegister_Raised(2) simp: comp_def)
  next
    case (CheckoutCustomer cid)
    with r have "checkoutCustomer cid s = Raised e s'" by simp
    from checkoutCustomer_Raised[OF this] show ?thesis
      by (auto dest!: checkoutCart_Raised(4) simp: map_list_update_same)
  next
    case GetLeastUtilizedRegister
    with r have "getLeastUtilizedRegister s = Raised e s'" by (auto simp: andThen_Raised)
    from getLeastUtilizedRegister_Raised(2)[OF this] show ?thesis by (simp add: comp_def)
  next
    case GetAllRegisterState
    with r show ?thesis by (auto simp: andThen_Raised getAllRegisterState_eq split: if_splits)
  qed
qed

lemma set_update_cases:
  "p \<in> set (AList.update k v al) \<Longrightarrow> p = (k, v) \<or> p \<in> set al"
  by (induction al) (auto split: if_splits)

lemma set_delete_subset: "p \<in> set (AList.delete k al) \<Longrightarrow> p \<in> set al"
  by (simp add: AList.delete_eq)

lemma ownedCarts_update:
  assumes "ownedCarts s" and "registers s' = (registers s)[k := r']"
    and "\<forall>p\<in>set (customer_cart_map r'). customer_id (snd p) = fst p"
  shows "ownedCarts s'"
  unfolding ownedCarts_def
proof
  fix r assume "r \<in> set (registers s')"
  with assms(2) have "r \<in> set ((registers s)[k := r'])" by simp
  then have "r = r' \<or> r \<in> set (registers s)" using set_update_subset_insert by fastforce
  with assms(1,3) show "\<forall>p\<in>set (customer_cart_map r). customer_id (snd p) = fst p"
    by (auto simp: ownedCarts_def)
qed

lemma ownedCarts_cong:
  assumes "map customer_cart_map (registers s') = map customer_cart_map (registers s)"
  shows "ownedCarts s' \<longleftrightarrow> ownedCarts s"
proof -
  from arg_cong[OF assms, of set]
  have img: "customer_cart_map ` set (registers s') = customer_cart_map ` set (registers s)"
    by simp
  have D: "ownedCarts t \<longleftrightarrow>
      (\<forall>m\<in>customer_cart_map ` set (registers t). \<forall>p\<in>set m. customer_id (snd p) = fst p)"
    for t :: "('a, 'b) store"
    by (simp add: ownedCarts_def)
  show ?thesis by (simp only: D img)
qed

lemma ownedCarts_perform:
  assumes "ownedCarts s" and "perform c s = Returned v s' \<or> perform c s = Raised e s'"
  shows "ownedCarts s'"
  using assms(2)
proof
  assume r: "perform c s = Returned v s'"
  show ?thesis
  proof (cases c)
    case (AssignItem cid item_id)
    with r have "assignItem cid item_id s = Returned v s'" by simp
    from assignItem_Returned[OF this] obtain k r' where k: "k < length (registers s)"
      and a: "addItemToCart cid item_id (registers s ! k) = Returned () r'"
      and rs: "registers s' = (registers s)[k := r']" by blast
    let ?m = "customer_cart_map (registers s ! k)"
    let ?c0 = "case map_of ?m cid of Some c \<Rightarrow> c | None \<Rightarrow> Cart_init cid"
    from nth_mem[OF k] assms(1) have old: "\<forall>p\<in>set ?m. customer_id (snd p) = fst p"
      by (simp add: ownedCarts_def)
    have c0: "customer_id ?c0 = cid"
    proof (cases "map_of ?m cid")
      case None
      then show ?thesis by (simp add: Cart_init_def)
    next
      case (Some c0)
      then have "(cid, c0) \<in> set ?m" by (rule map_of_SomeD)
      with old Some show ?thesis by fastforce
    qed
    from addItemToCart_Returned(2)[OF a]
    have m': "customer_cart_map r' = AList.update cid (addItem item_id ?c0) ?m" by simp
    have "\<forall>p\<in>set (customer_cart_map r'). customer_id (snd p) = fst p"
    proof
      fix p assume "p \<in> set (customer_cart_map r')"
      with m' have "p = (cid, addItem item_id ?c0) \<or> p \<in> set ?m"
        by (auto dest: set_update_cases)
      with old c0 show "customer_id (snd p) = fst p" by (auto simp: addItem_def)
    qed
    with assms(1) rs show ?thesis by (rule ownedCarts_update)
  next
    case (CheckoutCustomer cid)
    with r have "checkoutCustomer cid s = Returned v s'" by simp
    from checkoutCustomer_Returned[OF this] obtain k r' where k: "k < length (registers s)"
      and a: "checkoutCart cid (registers s ! k) = Returned () r'"
      and rs: "registers s' = (registers s)[k := r']" by blast
    from nth_mem[OF k] assms(1)
    have old: "\<forall>p\<in>set (customer_cart_map (registers s ! k)). customer_id (snd p) = fst p"
      by (simp add: ownedCarts_def)
    from checkoutCart_Returned(3)[OF a]
    have "customer_cart_map r' = AList.delete cid (customer_cart_map (registers s ! k))" by simp
    with old have "\<forall>p\<in>set (customer_cart_map r'). customer_id (snd p) = fst p"
      by (auto dest: set_delete_subset)
    with assms(1) rs show ?thesis by (rule ownedCarts_update)
  next
    case GetLeastUtilizedRegister
    with perform_read_Returned[OF r] have "s' = s" by blast
    with assms(1) show ?thesis by simp
  next
    case GetAllRegisterState
    with perform_read_Returned[OF r] have "s' = s" by blast
    with assms(1) show ?thesis by simp
  qed
next
  assume "perform c s = Raised e s'"
  from ownedCarts_cong[OF perform_Raised_frame(2)[OF this]] assms(1) show ?thesis by simp
qed

lemma run_wellformed:
  assumes "run cs (Store_init n) = Some s"
  shows "map register_id (registers s) = [0..<nat n]" and "distinctKeys s" and "ownedCarts s"
proof -
  show "map register_id (registers s) = [0..<nat n]"
  proof (rule run_invariant[where P = "\<lambda>t. map register_id (registers t) = [0..<nat n]",
        OF _ _ assms])
    show "map register_id (registers (Store_init n)) = [0..<nat n]"
      by (simp add: Store_init_def comp_def Register_init_def map_idI)
  next
    fix c v e and t t' :: "('a, 'b) store"
    assume "map register_id (registers t) = [0..<nat n]"
      and "perform c t = Returned v t' \<or> perform c t = Raised e t'"
    with perform_ids[of c t v t' e] show "map register_id (registers t') = [0..<nat n]"
      by simp
  qed
  show "distinctKeys s"
  proof (rule run_invariant[where P = distinctKeys, OF _ _ assms])
    show "distinctKeys (Store_init n)" by (rule Store_init_fresh(1))
  next
    fix c v e and t t' :: "('a, 'b) store"
    assume "distinctKeys t" and "perform c t = Returned v t' \<or> perform c t = Raised e t'"
    then show "distinctKeys t'" by (rule distinctKeys_perform)
  qed
  show "ownedCarts s"
  proof (rule run_invariant[where P = ownedCarts, OF _ _ assms])
    show "ownedCarts (Store_init n)"
      by (simp add: ownedCarts_def Store_init_def Register_init_def)
  next
    fix c v e and t t' :: "('a, 'b) store"
    assume "ownedCarts t" and "perform c t = Returned v t' \<or> perform c t = Raised e t'"
    then show "ownedCarts t'" by (rule ownedCarts_perform)
  qed
qed

lemma fold_state_notin:
  "rid \<notin> register_id ` set rs \<Longrightarrow>
   fold (\<lambda>r st. st(register_id r \<mapsto> getRegisterState r)) rs m rid = m rid"
  by (induction rs arbitrary: m) simp_all

lemma fold_state_in:
  "distinct (map register_id rs) \<Longrightarrow> r \<in> set rs \<Longrightarrow>
   fold (\<lambda>r st. st(register_id r \<mapsto> getRegisterState r)) rs m (register_id r) =
     Some (getRegisterState r)"
proof (induction rs arbitrary: m)
  case Nil
  then show ?case by simp
next
  case (Cons x xs)
  show ?case
  proof (cases "r = x")
    case True
    from Cons.prems(1) have "register_id x \<notin> register_id ` set xs" by simp
    from fold_state_notin[OF this, of "m(register_id x \<mapsto> getRegisterState x)"]
    have "fold (\<lambda>r st. st(register_id r \<mapsto> getRegisterState r)) (x # xs) m (register_id x) =
        (m(register_id x \<mapsto> getRegisterState x)) (register_id x)"
      by (simp only: fold_simps comp_apply)
    also have "\<dots> = Some (getRegisterState x)" by (rule fun_upd_same)
    finally show ?thesis using True by (simp only:)
  next
    case False
    with Cons.prems have "distinct (map register_id xs)" "r \<in> set xs" by simp_all
    from Cons.IH[OF this, of "m(register_id x \<mapsto> getRegisterState x)"]
    show ?thesis by (simp only: fold_simps comp_apply)
  qed
qed

lemma fold_append_concat:
  "fold (\<lambda>c st. st @ g c) xs a = a @ concat (map g xs)"
  by (induction xs arbitrary: a) simp_all

lemma getRegisterState_concat:
  "getRegisterState r =
     concat (map (\<lambda>c. map (\<lambda>_. customer_id c) (items c)) (map snd (customer_cart_map r)))"
  by (simp add: getRegisterState_def fold_append_concat size_cart_def map_replicate_const comp_def)

lemma getRegisterState_length: "length (getRegisterState r) = getTotalItems r"
  by (simp add: getRegisterState_concat getTotalItems_sum length_concat comp_def size_cart_def)

lemma count_list_const: "count_list (map (\<lambda>_. a) xs) b = (if a = b then length xs else 0)"
  by (induction xs) auto

lemma count_carts:
  assumes "distinct (map fst al)" and "\<forall>p\<in>set al. customer_id (snd p) = fst p"
  shows "count_list (concat (map (\<lambda>c. map (\<lambda>_. customer_id c) (items c)) (map snd al))) cid =
         (case map_of al cid of Some c \<Rightarrow> length (items c) | None \<Rightarrow> 0)"
  using assms
proof (induction al)
  case Nil
  then show ?case by simp
next
  case (Cons p al)
  from Cons.prems have d: "distinct (map fst al)" and o: "\<forall>p\<in>set al. customer_id (snd p) = fst p"
    and own: "customer_id (snd p) = fst p" and fresh: "fst p \<notin> fst ` set al" by simp_all
  note ih = Cons.IH[OF d o]
  show ?case
  proof (cases "fst p = cid")
    case True
    with fresh have "map_of al cid = None" by (simp add: map_of_eq_None_iff)
    with ih True own show ?thesis by (cases p) (simp add: count_list_const)
  next
    case False
    with ih own show ?thesis by (cases p) (simp add: count_list_const)
  qed
qed

lemma getRegisterState_count:
  assumes "distinct (map fst (customer_cart_map r))"
    and "\<forall>p\<in>set (customer_cart_map r). customer_id (snd p) = fst p"
  shows "count_list (getRegisterState r) cid = length (cartItems cid r)"
proof -
  have "count_list (getRegisterState r) cid =
      (case map_of (customer_cart_map r) cid of Some c \<Rightarrow> length (items c) | None \<Rightarrow> 0)"
    unfolding getRegisterState_concat by (rule count_carts[OF assms])
  also have "\<dots> = length (cartItems cid r)"
    by (simp add: cartItems_def split: option.split)
  finally show ?thesis .
qed

text \<open>
  Claim C8. On a store reached from \<^verbatim>\<open>Store(n)\<close> with no register lock held,
  \<^verbatim>\<open>getAllRegisterState()\<close> returns a dict that maps the id of every register to that
  register's \<^verbatim>\<open>getRegisterState()\<close>. That sequence is the register's pending items,
  cart after cart in the order of the cart map and in cart order within a cart, each
  replaced by the \<open>customer_id\<close> of its cart; its length is \<^verbatim>\<open>getTotalItems()\<close>, and
  each customer occurs in it as many times as the customer's cart at the register has
  items.
\<close>

theorem register_state:
  assumes "run calls (Store_init n) = Some s" and "\<forall>r\<in>set (registers s). \<not> lock r"
  shows "\<exists>st. getAllRegisterState s = Returned st s \<and>
           (\<forall>r\<in>set (registers s).
              st (register_id r) = Some (getRegisterState r) \<and>
              getRegisterState r =
                concat (map (\<lambda>c. map (\<lambda>_. customer_id c) (items c))
                         (map snd (customer_cart_map r))) \<and>
              length (getRegisterState r) = getTotalItems r \<and>
              (\<forall>cid. count_list (getRegisterState r) cid = length (cartItems cid r)))"
proof -
  let ?st = "fold (\<lambda>r st. st(register_id r \<mapsto> getRegisterState r)) (registers s) Map.empty"
  note wf = run_wellformed[OF assms(1)]
  from assms(2) have ret: "getAllRegisterState s = Returned ?st s"
    by (simp add: getAllRegisterState_eq)
  from wf(1) have ids: "distinct (map register_id (registers s))" by simp
  have per: "?st (register_id r) = Some (getRegisterState r) \<and>
        getRegisterState r =
          concat (map (\<lambda>c. map (\<lambda>_. customer_id c) (items c))
                   (map snd (customer_cart_map r))) \<and>
        length (getRegisterState r) = getTotalItems r \<and>
        (\<forall>cid. count_list (getRegisterState r) cid = length (cartItems cid r))"
    if r: "r \<in> set (registers s)" for r
  proof (intro conjI allI)
    show "?st (register_id r) = Some (getRegisterState r)" by (rule fold_state_in[OF ids r])
    show "getRegisterState r =
          concat (map (\<lambda>c. map (\<lambda>_. customer_id c) (items c))
                   (map snd (customer_cart_map r)))" by (rule getRegisterState_concat)
    show "length (getRegisterState r) = getTotalItems r" by (rule getRegisterState_length)
    from wf(2) r have d: "distinct (map fst (customer_cart_map r))"
      by (simp add: distinctKeys_def)
    from wf(3) r have o: "\<forall>p\<in>set (customer_cart_map r). customer_id (snd p) = fst p"
      by (simp add: ownedCarts_def)
    show "count_list (getRegisterState r) cid = length (cartItems cid r)" for cid
      by (rule getRegisterState_count[OF d o])
  qed
  from per have "\<forall>r\<in>set (registers s).
        ?st (register_id r) = Some (getRegisterState r) \<and>
        getRegisterState r =
          concat (map (\<lambda>c. map (\<lambda>_. customer_id c) (items c))
                   (map snd (customer_cart_map r))) \<and>
        length (getRegisterState r) = getTotalItems r \<and>
        (\<forall>cid. count_list (getRegisterState r) cid = length (cartItems cid r))"
    by (rule ballI)
  with ret show ?thesis by (intro exI[of _ ?st]) (rule conjI)
qed

lemma scenario_state:
  "\<exists>s. run scenario (Store_init 2) = Some s \<and> map lock (registers s) = [False, False] \<and>
       map register_id (registers s) = [0, 1] \<and>
       map getRegisterState (registers s) = [[1, 1], [2]] \<and>
       map getTotalItems (registers s) = [2, 1]"
  by (simp add: scenario_def eval_defs getRegisterState_def)

theorem register_state_witness:
  "\<exists>s st. run scenario (Store_init 2) = Some s \<and>
       getAllRegisterState s = Returned st s \<and>
       st 0 = Some [1, 1] \<and> st 1 = Some [2] \<and>
       map getTotalItems (registers s) = [2, 1]"
proof -
  from scenario_state obtain s where s: "run scenario (Store_init 2) = Some s"
    and l: "map lock (registers s) = [False, False]"
    and i: "map register_id (registers s) = [0, 1]"
    and g: "map getRegisterState (registers s) = [[1, 1], [2]]"
    and t: "map getTotalItems (registers s) = [2, 1]" by (elim exE conjE)
  from l obtain r0 r1 where rs: "registers s = [r0, r1]"
    by (cases "registers s"; cases "tl (registers s)") auto
  from l rs have free: "\<forall>r\<in>set (registers s). \<not> lock r" by simp
  from register_state[OF s free] obtain st where st: "getAllRegisterState s = Returned st s"
    and all: "\<forall>r\<in>set (registers s). st (register_id r) = Some (getRegisterState r)" by blast
  from all rs i g have "st 0 = Some [1, 1]" "st 1 = Some [2]" by auto
  with s st t show ?thesis by (intro exI[of _ s] exI[of _ st] conjI)
qed

section \<open>Calls on a reachable store return\<close>

lemma getTotalItems_le_totalItems:
  "r \<in> set (registers s) \<Longrightarrow> getTotalItems r \<le> totalItems s"
  unfolding totalItems_def by (simp add: member_le_sum_list)

lemma quiescent_update:
  assumes "quiescent s" and "registers s' = (registers s)[k := r']" and "\<not> lock r'"
  shows "quiescent s'"
  unfolding quiescent_def
proof
  fix r assume "r \<in> set (registers s')"
  with assms(2) have "r \<in> set ((registers s)[k := r'])" by simp
  then have "r = r' \<or> r \<in> set (registers s)" using set_update_subset_insert by fastforce
  with assms(1,3) show "\<not> lock r" by (auto simp: quiescent_def)
qed

lemma getLeastUtilizedRegister_quiescent:
  assumes q: "quiescent s" and b: "totalItems s < sys_maxsize"
  shows "(\<exists>k<length (registers s). getLeastUtilizedRegister s = Returned k s) \<or>
         getLeastUtilizedRegister s = Raised InvalidRegisterState s"
proof (cases "registers s = []")
  case True
  then show ?thesis by (simp add: getLeastUtilizedRegister_empty)
next
  case False
  have fits: "\<forall>r\<in>set (registers s). getTotalItems r < sys_maxsize"
  proof
    fix r assume "r \<in> set (registers s)"
    from getTotalItems_le_totalItems[OF this] b show "getTotalItems r < sys_maxsize" by simp
  qed
  from q have free: "\<not> (\<exists>r\<in>set (registers s). lock r)" by (simp add: quiescent_def)
  note np = scanRegisters_pool[OF False fits]
  show ?thesis
  proof (cases "scanRegisters (registers s) 0 sys_maxsize None")
    case (Found j)
    from scanRegisters_Found[OF Found] have "j < length (registers s)" by auto
    with Found free show ?thesis by (simp add: getLeastUtilizedRegister_eq)
  next
    case (Lowest c)
    with np obtain j where c: "c = Some j" by (cases c) auto
    from scanRegisters_Lowest[OF Lowest] c have "j < length (registers s)" by auto
    with Lowest c free show ?thesis by (simp add: getLeastUtilizedRegister_eq)
  qed
qed

lemma perform_quiescent:
  assumes q: "quiescent s" and r: "routed s" and b: "totalItems s < sys_maxsize"
  shows "\<exists>v s'. (perform c s = Returned v s' \<or> perform c s = Raised InvalidRegisterState s'
                   \<or> perform c s = Raised CheckoutWithoutCart s') \<and> quiescent s'"
proof -
  have ret: ?thesis if "perform c s = Returned v s'" "quiescent s'" for v s'
    using that by blast
  have inv: ?thesis if "perform c s = Raised InvalidRegisterState s"
    using that q by blast
  have cwc: ?thesis if "perform c s = Raised CheckoutWithoutCart s"
    using that q by blast
  show ?thesis
  proof (cases c)
    case (AssignItem cid item_id)
    have add: "\<exists>s'. atRegister k (addItemToCart cid item_id) s = Returned () s' \<and> quiescent s'"
      if k: "k < length (registers s)" for k
    proof -
      from nth_mem[OF k] q have free: "\<not> lock (registers s ! k)" by (simp add: quiescent_def)
      from addItemToCart_free[OF free] obtain r' where
        a: "addItemToCart cid item_id (registers s ! k) = Returned () r'" ..
      from addItemToCart_effect(1)[OF a] free have nl: "\<not> lock r'" by simp
      have q': "quiescent (s\<lparr>registers := (registers s)[k := r']\<rparr>)"
        by (rule quiescent_update[OF q _ nl]) simp
      from k a have "atRegister k (addItemToCart cid item_id) s =
          Returned () (s\<lparr>registers := (registers s)[k := r']\<rparr>)"
        by (simp add: atRegister_def inStore_def)
      with q' show ?thesis by blast
    qed
    show ?thesis
    proof (cases "register_map s cid")
      case (Some k)
      with r have "k < length (registers s)" by (simp add: routed_def)
      from add[OF this] obtain s1 where
        a: "atRegister k (addItemToCart cid item_id) s = Returned () s1" and q1: "quiescent s1"
        by blast
      from Some a AssignItem have "perform c s = Returned () s1" by (simp add: assignItem_def)
      then show ?thesis using q1 by (rule ret)
    next
      case None
      from getLeastUtilizedRegister_quiescent[OF q b] show ?thesis
      proof
        assume "\<exists>k<length (registers s). getLeastUtilizedRegister s = Returned k s"
        then obtain k where k: "k < length (registers s)"
          and g: "getLeastUtilizedRegister s = Returned k s" by blast
        from add[OF k] obtain s1 where
          a: "atRegister k (addItemToCart cid item_id) s = Returned () s1" and q1: "quiescent s1"
          by blast
        from q1 have q2: "quiescent (s1\<lparr>register_map := (register_map s1)(cid \<mapsto> k)\<rparr>)"
          by (simp add: quiescent_def)
        from None g a AssignItem
        have "perform c s = Returned () (s1\<lparr>register_map := (register_map s1)(cid \<mapsto> k)\<rparr>)"
          by (simp add: assignItem_def)
        then show ?thesis using q2 by (rule ret)
      next
        assume "getLeastUtilizedRegister s = Raised InvalidRegisterState s"
        with None AssignItem have "perform c s = Raised InvalidRegisterState s"
          by (simp add: assignItem_def)
        then show ?thesis by (rule inv)
      qed
    qed
  next
    case (CheckoutCustomer cid)
    show ?thesis
    proof (cases "register_map s cid")
      case None
      with CheckoutCustomer have "perform c s = Raised CheckoutWithoutCart s"
        by (simp add: checkoutCustomer_def)
      then show ?thesis by (rule cwc)
    next
      case (Some k)
      with r have k: "k < length (registers s)" and c: "cid \<in> customers (registers s ! k)"
        by (simp_all add: routed_def)
      from nth_mem[OF k] q have free: "\<not> lock (registers s ! k)" by (simp add: quiescent_def)
      from c have "map_of (customer_cart_map (registers s ! k)) cid \<noteq> None"
        by (simp add: customers_def map_of_eq_None_iff)
      with free have co: "checkoutCart cid (registers s ! k) =
          Returned () ((registers s ! k)\<lparr>customer_cart_map :=
             AList.delete cid (customer_cart_map (registers s ! k))\<rparr>)"
        (is "_ = Returned () ?r'")
        by (simp add: checkoutCart_eq)
      have nl: "\<not> lock ?r'" using free by simp
      have "quiescent (s\<lparr>registers := (registers s)[k := ?r']\<rparr>)"
        by (rule quiescent_update[OF q _ nl]) simp
      then have q2: "quiescent (s\<lparr>registers := (registers s)[k := ?r'],
          register_map := (register_map s)(cid := None)\<rparr>)"
        by (simp add: quiescent_def)
      from Some k co CheckoutCustomer
      have "perform c s = Returned () (s\<lparr>registers := (registers s)[k := ?r'],
          register_map := (register_map s)(cid := None)\<rparr>)"
        by (simp add: checkoutCustomer_def atRegister_def inStore_def)
      then show ?thesis using q2 by (rule ret)
    qed
  next
    case GetLeastUtilizedRegister
    from getLeastUtilizedRegister_quiescent[OF q b] show ?thesis
    proof
      assume "\<exists>k<length (registers s). getLeastUtilizedRegister s = Returned k s"
      then obtain k where "getLeastUtilizedRegister s = Returned k s" by blast
      with GetLeastUtilizedRegister have "perform c s = Returned () s" by simp
      then show ?thesis using q by (rule ret)
    next
      assume "getLeastUtilizedRegister s = Raised InvalidRegisterState s"
      with GetLeastUtilizedRegister have "perform c s = Raised InvalidRegisterState s" by simp
      then show ?thesis by (rule inv)
    qed
  next
    case GetAllRegisterState
    from q have "\<not> (\<exists>r\<in>set (registers s). lock r)" by (simp add: quiescent_def)
    with GetAllRegisterState have "perform c s = Returned () s"
      by (simp add: getAllRegisterState_eq)
    then show ?thesis using q by (rule ret)
  qed
qed

lemma perform_totalItems:
  assumes "distinctKeys s" and "perform c s = Returned v s' \<or> perform c s = Raised e s'"
  shows "totalItems s' \<le> Suc (totalItems s)"
  using assms(2)
proof
  assume r: "perform c s = Returned v s'"
  show ?thesis
  proof (cases c)
    case (AssignItem cid item_id)
    with r have "assignItem cid item_id s = Returned v s'" by simp
    from assignItem_total[OF this] show ?thesis by simp
  next
    case (CheckoutCustomer cid)
    with r have "checkoutCustomer cid s = Returned v s'" by simp
    from checkoutCustomer_total[OF this assms(1)] show ?thesis by simp
  next
    case GetLeastUtilizedRegister
    with perform_read_Returned[OF r] have "s' = s" by blast
    then show ?thesis by simp
  next
    case GetAllRegisterState
    with perform_read_Returned[OF r] have "s' = s" by blast
    then show ?thesis by simp
  qed
next
  assume "perform c s = Raised e s'"
  from carts_cong(1)[OF perform_Raised_frame(2)[OF this]] show ?thesis by simp
qed

lemma run_returns_from:
  assumes "quiescent s" and "routed s" and "distinctKeys s"
    and "totalItems s + length cs < sys_maxsize"
  shows "\<exists>s'. run cs s = Some s' \<and> quiescent s' \<and> totalItems s' < sys_maxsize"
  using assms
proof (induction cs arbitrary: s)
  case Nil
  then show ?case by simp
next
  case (Cons c cs)
  from Cons.prems(4) have b: "totalItems s < sys_maxsize" by simp
  from perform_quiescent[OF Cons.prems(1,2) b, of c] obtain v s1 where
    p: "perform c s = Returned v s1 \<or> perform c s = Raised InvalidRegisterState s1
        \<or> perform c s = Raised CheckoutWithoutCart s1"
    and q1: "quiescent s1" by blast
  then obtain e where p': "perform c s = Returned v s1 \<or> perform c s = Raised e s1" by blast
  from routed_perform[OF Cons.prems(2) p'] have r1: "routed s1" .
  from distinctKeys_perform[OF Cons.prems(3) p'] have d1: "distinctKeys s1" .
  from perform_totalItems[OF Cons.prems(3) p'] Cons.prems(4)
  have b1: "totalItems s1 + length cs < sys_maxsize" by simp
  from Cons.IH[OF q1 r1 d1 b1] obtain s' where
    "run cs s1 = Some s'" "quiescent s'" "totalItems s' < sys_maxsize" by blast
  with p' show ?case by auto
qed

text \<open>
  A sequence of fewer than \<^verbatim>\<open>sys.maxsize\<close> calls on \<^verbatim>\<open>Store(n)\<close> never blocks: every
  call returns or raises, and the store it leaves has no lock held and fewer than
  \<^verbatim>\<open>sys.maxsize\<close> items at every register. These are the stores on which the
  statements about \<^verbatim>\<open>getLeastUtilizedRegister\<close> and \<^verbatim>\<open>getAllRegisterState\<close> are made.
\<close>

lemma run_returns:
  assumes "length cs < sys_maxsize"
  shows "\<exists>s. run cs (Store_init n) = Some s \<and> (\<forall>r\<in>set (registers s). \<not> lock r) \<and>
             (\<forall>r\<in>set (registers s). getTotalItems r < sys_maxsize)"
proof -
  have "quiescent (Store_init n)" by (auto simp: quiescent_def Store_init_def Register_init_def)
  from run_returns_from[OF this routed_Store_init Store_init_fresh(1)] assms
  obtain s where s: "run cs (Store_init n) = Some s" "quiescent s"
    "totalItems s < sys_maxsize"
    by (auto simp: Store_init_fresh(2))
  have "getTotalItems r < sys_maxsize" if "r \<in> set (registers s)" for r
    using getTotalItems_le_totalItems[OF that] s(3) by simp
  with s(1,2) show ?thesis by (auto simp: quiescent_def)
qed

end
